theory Spec2Isabelle
  imports Main
begin

section \<open>The platform: timers and the event loop\<close>

text \<open>
  The package \<open>tiny-debounce-throttle\<close> is written against two platform primitives,
  \<open>setTimeout\<close> and \<open>clearTimeout\<close>, and its tests drive the clock with
  \<open>vi.advanceTimersByTime\<close>.  The platform is the one the tests run on, the fake
  timers of \<open>vi.useFakeTimers\<close>, modelled as seen by one controller: a clock \<open>now\<close>
  (whole milliseconds, counted from the construction of the controller), the queue of
  scheduled timers in the order of their scheduling, the next handle, and the flag
  \<open>duringTick\<close>, set while \<open>advanceTimersByTime\<close> runs the timers.  A timer is its
  handle, its due time and the callback it runs.  Handles are never reused and are
  truthy values, so the source's test \<open>if (timeoutId)\<close> is the test
  \<open>timeoutId !== undefined\<close>; a variable holding \<open>undefined\<close> is \<open>None\<close>.  Delays
  and advances of the clock are whole numbers of milliseconds; an advance by a
  negative amount moves nothing.
\<close>

datatype 'cb timer = Timer (handle: nat) (due: int) (callback: 'cb)

record 'cb platform =
  now :: int
  queue :: "'cb timer list"
  nextId :: nat
  duringTick :: bool

text \<open>
  The delay the platform gives a timer: a delay above \<open>2^31 - 1\<close> becomes 1 ms, a
  negative one 0, and a delay of 0 becomes 1 ms when the timer is set from inside a
  running timer callback.
\<close>

definition maxTimeout :: int where
  "maxTimeout = 2147483647"

definition timer_delay :: "bool \<Rightarrow> int \<Rightarrow> int" where
  "timer_delay tick delay =
     (let d1 = (if delay > maxTimeout then 1 else delay);
          d2 = max 0 d1
      in if d2 = 0 then (if tick then 1 else 0) else d2)"

text \<open>\<open>setTimeout(cb, delay)\<close>: the new handle is returned.\<close>

definition setTimeout ::
  "'cb \<Rightarrow> int \<Rightarrow> ('cb, 'z) platform_scheme \<Rightarrow> nat \<times> ('cb, 'z) platform_scheme" where
  "setTimeout cb delay p =
     (nextId p,
      p\<lparr>queue := queue p @ [Timer (nextId p) (now p + timer_delay (duringTick p) delay) cb],
        nextId := Suc (nextId p)\<rparr>)"

text \<open>\<open>clearTimeout(h)\<close>: the timer leaves the queue; an unknown handle is ignored.\<close>

definition clearTimeout :: "nat \<Rightarrow> ('cb, 'z) platform_scheme \<Rightarrow> ('cb, 'z) platform_scheme" where
  "clearTimeout h p = p\<lparr>queue := filter (\<lambda>tm. handle tm \<noteq> h) (queue p)\<rparr>"

text \<open>
  The timer the event loop runs next when the clock is moved to \<open>target\<close>: among the
  timers due by then, the one due first, and among equals the one scheduled first.
\<close>

fun next_timer :: "int \<Rightarrow> 'cb timer list \<Rightarrow> 'cb timer option" where
  "next_timer target [] = None"
| "next_timer target (tm # q) =
     (case next_timer target q of
        None \<Rightarrow> (if due tm \<le> target then Some tm else None)
      | Some tm' \<Rightarrow> (if due tm \<le> due tm' then Some tm else Some tm'))"

text \<open>Taking a timer out of the queue to run it: the clock stands at its due time.\<close>

definition take_timer :: "'cb timer \<Rightarrow> ('cb, 'z) platform_scheme \<Rightarrow> ('cb, 'z) platform_scheme" where
  "take_timer tm p =
     p\<lparr>now := max (now p) (due tm),
       queue := filter (\<lambda>x. handle x \<noteq> handle tm) (queue p)\<rparr>"

section \<open>The state shared by both controllers\<close>

text \<open>
  Both \<open>debounce\<close> and \<open>throttle\<close> keep \<open>timeoutId\<close>, \<open>lastArgs\<close> and \<open>lastThis\<close> in
  their closure.  The wrapped function \<open>func\<close> is opaque: \<open>func.apply(thisArg, args)\<close>
  is recorded in \<open>deliveries\<close> with the time of the call, as the tests' \<open>vi.fn()\<close>
  records it, and is taken to return normally and not to call the controller itself
  (what \<open>flush()\<close> does when it throws is said where \<open>flush_throws\<close> is defined).
  A \<open>this\<close> value is \<open>'c option\<close>, \<open>None\<close> being \<open>undefined\<close>.  The argument array of
  a call is always truthy, so \<open>if (lastArgs)\<close> is \<open>lastArgs !== undefined\<close>.
  \<open>throttle.raf\<close>, which waits for an animation frame instead of a timer, is left out.
\<close>

record ('cb, 'c, 'a) controller = "'cb platform" +
  timeoutId :: "nat option"
  lastArgs :: "'a option"
  lastThis :: "'c option"
  deliveries :: "(int \<times> 'c option \<times> 'a) list"

definition apply_func ::
  "'c option \<Rightarrow> 'a \<Rightarrow> ('cb, 'c, 'a, 'z) controller_scheme \<Rightarrow> ('cb, 'c, 'a, 'z) controller_scheme" where
  "apply_func thisArg args s = s\<lparr>deliveries := deliveries s @ [(now s, thisArg, args)]\<rparr>"

text \<open>What a caller does with a controller, one event at a time.\<close>

datatype ('c, 'a) event = Call "'c option" 'a | Cancel | Flush | Advance int

text \<open>The source has no \<open>throw\<close>; a constructor's result is still an \<open>error + _\<close>.\<close>

datatype error = Error string

section \<open>debounce\<close>

record DebounceOptions =
  opt_leading :: "bool option"
  opt_trailing :: "bool option"
  opt_maxWait :: "int option"

text \<open>The values the closure captures: \<open>wait\<close> and the options with their defaults.\<close>

record debounce_config =
  wait :: int
  leading :: bool
  trailing :: bool
  maxWait :: "int option"

datatype debounce_cb = TimeoutCb | MaxTimeoutCb

record ('c, 'a) debounce_state = "(debounce_cb, 'c, 'a) controller" +
  maxTimeoutId :: "nat option"
  lastCallTime :: "int option"

definition debounce_init :: "('c, 'a) debounce_state" where
  "debounce_init =
     \<lparr>now = 0, queue = [], nextId = 1, duringTick = False,
      timeoutId = None, lastArgs = None, lastThis = None, deliveries = [],
      maxTimeoutId = None, lastCallTime = None\<rparr>"

definition debounce ::
  "int \<Rightarrow> DebounceOptions \<Rightarrow> error + debounce_config \<times> ('c, 'a) debounce_state" where
  "debounce w options =
     Inr (\<lparr>wait = w,
           leading = (case opt_leading options of None \<Rightarrow> False | Some b \<Rightarrow> b),
           trailing = (case opt_trailing options of None \<Rightarrow> True | Some b \<Rightarrow> b),
           maxWait = opt_maxWait options\<rparr>,
          debounce_init)"

definition invokeFunc :: "('c, 'a) debounce_state \<Rightarrow> ('c, 'a) debounce_state" where
  "invokeFunc s =
     (let args = lastArgs s;
          thisArg = lastThis s;
          s1 = s\<lparr>lastArgs := None, lastThis := None\<rparr>
      in case args of Some a \<Rightarrow> apply_func thisArg a s1 | None \<Rightarrow> s1)"

definition debounce_cancel :: "('c, 'a) debounce_state \<Rightarrow> ('c, 'a) debounce_state" where
  "debounce_cancel s =
     (let s1 = (case timeoutId s of Some h \<Rightarrow> clearTimeout h s | None \<Rightarrow> s);
          s2 = (case maxTimeoutId s1 of Some h \<Rightarrow> clearTimeout h s1 | None \<Rightarrow> s1)
      in s2\<lparr>timeoutId := None, maxTimeoutId := None,
            lastArgs := None, lastThis := None, lastCallTime := None\<rparr>)"

definition flush :: "('c, 'a) debounce_state \<Rightarrow> ('c, 'a) debounce_state" where
  "flush s =
     (let s1 = (case timeoutId s of
                  Some h \<Rightarrow> (clearTimeout h s)\<lparr>timeoutId := None\<rparr> | None \<Rightarrow> s);
          s2 = (case maxTimeoutId s1 of
                  Some h \<Rightarrow> (clearTimeout h s1)\<lparr>maxTimeoutId := None\<rparr> | None \<Rightarrow> s1)
      in if lastArgs s2 \<noteq> None then invokeFunc s2 else s2)"

definition pending :: "('c, 'a) debounce_state \<Rightarrow> bool" where
  "pending s = (timeoutId s \<noteq> None)"

definition debounced ::
  "debounce_config \<Rightarrow> 'c option \<Rightarrow> 'a \<Rightarrow> ('c, 'a) debounce_state \<Rightarrow> ('c, 'a) debounce_state" where
  "debounced cfg this args s =
     (let time = now s;
          isInvoking = (lastCallTime s = None);
          s1 = s\<lparr>lastArgs := Some args, lastThis := this, lastCallTime := Some time\<rparr>;
          s2 = (if isInvoking \<and> leading cfg then invokeFunc s1 else s1);
          s3 = (case timeoutId s2 of Some h \<Rightarrow> clearTimeout h s2 | None \<Rightarrow> s2);
          s4 = (if trailing cfg
                then (case setTimeout TimeoutCb (wait cfg) s3 of
                        (h, p) \<Rightarrow> p\<lparr>timeoutId := Some h\<rparr>)
                else s3)
      in case maxWait cfg of
           Some m \<Rightarrow>
             (if maxTimeoutId s4 = None
              then (case setTimeout MaxTimeoutCb m s4 of
                      (h, p) \<Rightarrow> p\<lparr>maxTimeoutId := Some h\<rparr>)
              else s4)
         | None \<Rightarrow> s4)"

text \<open>The two timer callbacks of \<open>debounced\<close>.\<close>

definition timeout_callback ::
  "debounce_config \<Rightarrow> ('c, 'a) debounce_state \<Rightarrow> ('c, 'a) debounce_state" where
  "timeout_callback cfg s =
     (let s1 = s\<lparr>timeoutId := None\<rparr>;
          s2 = (case maxTimeoutId s1 of
                  Some h \<Rightarrow> (clearTimeout h s1)\<lparr>maxTimeoutId := None\<rparr> | None \<Rightarrow> s1);
          s3 = (if \<not> leading cfg \<or> lastArgs s2 \<noteq> None then invokeFunc s2 else s2)
      in s3\<lparr>lastCallTime := None\<rparr>)"

definition maxTimeout_callback :: "('c, 'a) debounce_state \<Rightarrow> ('c, 'a) debounce_state" where
  "maxTimeout_callback s =
     (let s1 = s\<lparr>maxTimeoutId := None\<rparr>;
          s2 = (case timeoutId s1 of
                  Some h \<Rightarrow> (clearTimeout h s1)\<lparr>timeoutId := None\<rparr> | None \<Rightarrow> s1);
          s3 = invokeFunc s2
      in s3\<lparr>lastCallTime := None\<rparr>)"

definition debounce_fire ::
  "debounce_config \<Rightarrow> debounce_cb timer \<Rightarrow> ('c, 'a) debounce_state \<Rightarrow> ('c, 'a) debounce_state" where
  "debounce_fire cfg tm s =
     (case callback tm of
        TimeoutCb \<Rightarrow> timeout_callback cfg (take_timer tm s)
      | MaxTimeoutCb \<Rightarrow> maxTimeout_callback (take_timer tm s))"

lemma next_timer_mem: "next_timer target q = Some tm \<Longrightarrow> tm \<in> set q"
  by (induction q arbitrary: tm) (auto split: option.splits if_splits)

lemma length_filter_handle_less:
  "tm \<in> set q \<Longrightarrow> length (filter (\<lambda>x. handle x \<noteq> handle tm) q) < length q"
  by (induction q) (auto simp: less_Suc_eq_le)

lemma queue_invokeFunc [simp]: "queue (invokeFunc s) = queue s"
  by (simp add: invokeFunc_def apply_func_def Let_def split: option.splits)

lemma length_filter_conj: "length (filter (\<lambda>x. P x \<and> Q x) q) \<le> length (filter P q)"
  by (induction q) auto

lemma length_queue_debounce_fire:
  "length (queue (debounce_fire cfg tm s)) \<le> length (filter (\<lambda>x. handle x \<noteq> handle tm) (queue s))"
  by (auto simp: debounce_fire_def timeout_callback_def maxTimeout_callback_def take_timer_def
      clearTimeout_def Let_def length_filter_conj split: debounce_cb.splits option.splits)

lemma debounce_fire_decreases:
  assumes "next_timer target (queue s) = Some tm"
  shows "length (queue (debounce_fire cfg tm s)) < length (queue s)"
proof -
  from assms have "tm \<in> set (queue s)"
    by (rule next_timer_mem)
  then have "length (filter (\<lambda>x. handle x \<noteq> handle tm) (queue s)) < length (queue s)"
    by (rule length_filter_handle_less)
  with length_queue_debounce_fire [of cfg tm s] show ?thesis
    by simp
qed

text \<open>
  \<open>advanceTimersByTime\<close>: with \<open>duringTick\<close> set, run every timer due by \<open>target\<close>,
  each at its due time, then leave the clock at \<open>target\<close>.
\<close>

function debounce_run_timers ::
  "debounce_config \<Rightarrow> int \<Rightarrow> ('c, 'a) debounce_state \<Rightarrow> ('c, 'a) debounce_state" where
  "debounce_run_timers cfg target s =
     (case next_timer target (queue s) of
        None \<Rightarrow> s\<lparr>now := max (now s) target\<rparr>
      | Some tm \<Rightarrow> debounce_run_timers cfg target (debounce_fire cfg tm s))"
  by pat_completeness auto
termination
  by (relation "measure (\<lambda>(cfg, target, s). length (queue s))")
    (simp_all add: debounce_fire_decreases)

definition debounce_advance ::
  "debounce_config \<Rightarrow> int \<Rightarrow> ('c, 'a) debounce_state \<Rightarrow> ('c, 'a) debounce_state" where
  "debounce_advance cfg d s =
     (debounce_run_timers cfg (now s + d) (s\<lparr>duringTick := True\<rparr>))\<lparr>duringTick := False\<rparr>"

fun debounce_step ::
  "debounce_config \<Rightarrow> ('c, 'a) event \<Rightarrow> ('c, 'a) debounce_state \<Rightarrow> ('c, 'a) debounce_state" where
  "debounce_step cfg (Call this args) s = debounced cfg this args s"
| "debounce_step cfg Cancel s = debounce_cancel s"
| "debounce_step cfg Flush s = flush s"
| "debounce_step cfg (Advance d) s = debounce_advance cfg d s"

fun debounce_run ::
  "debounce_config \<Rightarrow> ('c, 'a) event list \<Rightarrow> ('c, 'a) debounce_state \<Rightarrow> ('c, 'a) debounce_state" where
  "debounce_run cfg [] s = s"
| "debounce_run cfg (ev # evs) s = debounce_run cfg evs (debounce_step cfg ev s)"

section \<open>throttle\<close>

datatype throttle_cb = CooldownCb

record ('c, 'a) throttle_state = "(throttle_cb, 'c, 'a) controller" +
  inThrottle :: bool

text \<open>A throttled function has \<open>cancel\<close> and no \<open>flush\<close>.\<close>

datatype ('c, 'a) throttle_event = TCall "'c option" 'a | TCancel | TAdvance int

definition throttle_init :: "('c, 'a) throttle_state" where
  "throttle_init =
     \<lparr>now = 0, queue = [], nextId = 1, duringTick = False,
      timeoutId = None, lastArgs = None, lastThis = None, deliveries = [],
      inThrottle = False\<rparr>"

definition throttle :: "int \<Rightarrow> error + int \<times> ('c, 'a) throttle_state" where
  "throttle w = Inr (w, throttle_init)"

definition throttle_cancel :: "('c, 'a) throttle_state \<Rightarrow> ('c, 'a) throttle_state" where
  "throttle_cancel s =
     (let s1 = (case timeoutId s of
                  Some h \<Rightarrow> (clearTimeout h s)\<lparr>timeoutId := None\<rparr> | None \<Rightarrow> s)
      in s1\<lparr>inThrottle := False, lastArgs := None, lastThis := None\<rparr>)"

definition throttled ::
  "int \<Rightarrow> 'c option \<Rightarrow> 'a \<Rightarrow> ('c, 'a) throttle_state \<Rightarrow> ('c, 'a) throttle_state" where
  "throttled w this args s =
     (let s1 = s\<lparr>lastArgs := Some args, lastThis := this\<rparr>
      in if \<not> inThrottle s1
         then (let s2 = apply_func this args s1;
                   s3 = s2\<lparr>lastArgs := None, lastThis := None, inThrottle := True\<rparr>
               in case setTimeout CooldownCb w s3 of (h, p) \<Rightarrow> p\<lparr>timeoutId := Some h\<rparr>)
         else s1)"

text \<open>The timer callback of \<open>throttled\<close>; it calls \<open>throttled\<close> itself for the trailing call.\<close>

definition throttle_callback :: "int \<Rightarrow> ('c, 'a) throttle_state \<Rightarrow> ('c, 'a) throttle_state" where
  "throttle_callback w s =
     (let s1 = s\<lparr>inThrottle := False\<rparr>
      in case lastArgs s1 of Some a \<Rightarrow> throttled w (lastThis s1) a s1 | None \<Rightarrow> s1)"

definition throttle_fire ::
  "int \<Rightarrow> throttle_cb timer \<Rightarrow> ('c, 'a) throttle_state \<Rightarrow> ('c, 'a) throttle_state" where
  "throttle_fire w tm s =
     (case callback tm of CooldownCb \<Rightarrow> throttle_callback w (take_timer tm s))"

text \<open>
  A cooldown timer may schedule the next one; the pending call it consumes is what
  bounds the loop.
\<close>

definition throttle_fuel :: "('c, 'a) throttle_state \<Rightarrow> nat" where
  "throttle_fuel s = length (queue s) + (if lastArgs s = None then 0 else 1)"

lemma throttle_fire_decreases:
  assumes "next_timer target (queue s) = Some tm"
  shows "throttle_fuel (throttle_fire w tm s) < throttle_fuel s"
proof -
  from assms have "tm \<in> set (queue s)"
    by (rule next_timer_mem)
  then have "length (filter (\<lambda>x. handle x \<noteq> handle tm) (queue s)) < length (queue s)"
    by (rule length_filter_handle_less)
  then show ?thesis
    by (cases "lastArgs s")
      (simp_all add: throttle_fuel_def throttle_fire_def throttle_callback_def throttled_def
        take_timer_def setTimeout_def apply_func_def Let_def split: throttle_cb.splits)
qed

function throttle_run_timers ::
  "int \<Rightarrow> int \<Rightarrow> ('c, 'a) throttle_state \<Rightarrow> ('c, 'a) throttle_state" where
  "throttle_run_timers w target s =
     (case next_timer target (queue s) of
        None \<Rightarrow> s\<lparr>now := max (now s) target\<rparr>
      | Some tm \<Rightarrow> throttle_run_timers w target (throttle_fire w tm s))"
  by pat_completeness auto
termination
  by (relation "measure (\<lambda>(w, target, s). throttle_fuel s)")
    (simp_all add: throttle_fire_decreases)

definition throttle_advance :: "int \<Rightarrow> int \<Rightarrow> ('c, 'a) throttle_state \<Rightarrow> ('c, 'a) throttle_state" where
  "throttle_advance w d s =
     (throttle_run_timers w (now s + d) (s\<lparr>duringTick := True\<rparr>))\<lparr>duringTick := False\<rparr>"

fun throttle_step ::
  "int \<Rightarrow> ('c, 'a) throttle_event \<Rightarrow> ('c, 'a) throttle_state \<Rightarrow> ('c, 'a) throttle_state" where
  "throttle_step w (TCall this args) s = throttled w this args s"
| "throttle_step w TCancel s = throttle_cancel s"
| "throttle_step w (TAdvance d) s = throttle_advance w d s"

fun throttle_run ::
  "int \<Rightarrow> ('c, 'a) throttle_event list \<Rightarrow> ('c, 'a) throttle_state \<Rightarrow> ('c, 'a) throttle_state" where
  "throttle_run w [] s = s"
| "throttle_run w (ev # evs) s = throttle_run w evs (throttle_step w ev s)"

section \<open>Properties of the platform and invariants of debounce\<close>

lemma timer_delay_nonneg [simp]: "0 \<le> timer_delay tick delay"
  by (simp add: timer_delay_def Let_def max_def)

lemma le_add_timer_delay [simp]: "a \<le> b \<Longrightarrow> a \<le> b + timer_delay tick delay"
  by (simp add: add_increasing2)

lemma timer_delay_cases:
  "timer_delay tick delay =
     (if maxTimeout < delay then 1 else if 1 \<le> delay then delay else if tick then 1 else 0)"
  by (simp add: timer_delay_def maxTimeout_def Let_def)

lemma timer_delay_in_range: "1 \<le> delay \<Longrightarrow> delay \<le> maxTimeout \<Longrightarrow> timer_delay tick delay = delay"
  by (simp add: timer_delay_cases)

lemma timer_delay_outside: "0 \<le> delay \<Longrightarrow> delay \<le> maxTimeout \<Longrightarrow> timer_delay False delay = delay"
  by (simp add: timer_delay_cases)


lemma timer_delay_upper: "0 \<le> delay \<Longrightarrow> timer_delay False delay \<le> delay"
  by (simp add: timer_delay_cases maxTimeout_def)

lemma next_timer_due: "next_timer target q = Some tm \<Longrightarrow> due tm \<le> target"
  by (induction q arbitrary: tm) (auto split: option.splits if_splits)

lemma next_timer_None: "next_timer target q = None \<longleftrightarrow> (\<forall>x\<in>set q. target < due x)"
  by (induction q) (auto split: option.splits if_splits dest: next_timer_due)

lemma next_timer_least:
  "next_timer target q = Some tm \<Longrightarrow> x \<in> set q \<Longrightarrow> due tm \<le> due x"
proof (induction q arbitrary: tm)
  case Nil
  then show ?case by simp
next
  case (Cons y q)
  show ?case
  proof (cases "next_timer target q")
    case None
    with Cons.prems have tm: "tm = y" "due y \<le> target"
      by (auto split: if_splits)
    from None have "\<forall>x\<in>set q. target < due x"
      by (simp add: next_timer_None)
    with tm Cons.prems(2) show ?thesis
      by auto
  next
    case (Some z)
    with Cons.IH [of z] have "x \<in> set q \<Longrightarrow> due z \<le> due x"
      by simp
    with Some Cons.prems show ?thesis
      by (auto split: if_splits)
  qed
qed

lemma invokeFunc_fields [simp]:
  "now (invokeFunc s) = now s"
  "nextId (invokeFunc s) = nextId s"
  "timeoutId (invokeFunc s) = timeoutId s"
  "maxTimeoutId (invokeFunc s) = maxTimeoutId s"
  "lastCallTime (invokeFunc s) = lastCallTime s"
  "duringTick (invokeFunc s) = duringTick s"
  "lastArgs (invokeFunc s) = None"
  "lastThis (invokeFunc s) = None"
  "deliveries (invokeFunc s) =
     deliveries s @ (case lastArgs s of Some a \<Rightarrow> [(now s, lastThis s, a)] | None \<Rightarrow> [])"
  by (simp_all add: invokeFunc_def apply_func_def Let_def split: option.splits)

definition without :: "nat option \<Rightarrow> 'cb timer list \<Rightarrow> 'cb timer list" where
  "without h q = (case h of Some i \<Rightarrow> filter (\<lambda>tm. handle tm \<noteq> i) q | None \<Rightarrow> q)"

lemma debounce_cancel_fields [simp]:
  "now (debounce_cancel s) = now s"
  "nextId (debounce_cancel s) = nextId s"
  "duringTick (debounce_cancel s) = duringTick s"
  "queue (debounce_cancel s) = without (maxTimeoutId s) (without (timeoutId s) (queue s))"
  "timeoutId (debounce_cancel s) = None"
  "maxTimeoutId (debounce_cancel s) = None"
  "lastCallTime (debounce_cancel s) = None"
  "lastArgs (debounce_cancel s) = None"
  "lastThis (debounce_cancel s) = None"
  "deliveries (debounce_cancel s) = deliveries s"
  by (simp_all add: debounce_cancel_def clearTimeout_def without_def Let_def split: option.splits)

lemma flush_fields [simp]:
  "now (flush s) = now s"
  "nextId (flush s) = nextId s"
  "duringTick (flush s) = duringTick s"
  "queue (flush s) = without (maxTimeoutId s) (without (timeoutId s) (queue s))"
  "timeoutId (flush s) = None"
  "maxTimeoutId (flush s) = None"
  "lastCallTime (flush s) = lastCallTime s"
  "lastArgs (flush s) = None"
  "lastThis (flush s) = (if lastArgs s = None then lastThis s else None)"
  "deliveries (flush s) =
     deliveries s @ (case lastArgs s of Some a \<Rightarrow> [(now s, lastThis s, a)] | None \<Rightarrow> [])"
  by (auto simp add: flush_def clearTimeout_def without_def Let_def split: option.splits)

definition leading_edge :: "debounce_config \<Rightarrow> ('c, 'a) debounce_state \<Rightarrow> bool" where
  "leading_edge cfg s \<longleftrightarrow> lastCallTime s = None \<and> leading cfg"

definition max_due_now :: "debounce_config \<Rightarrow> ('c, 'a) debounce_state \<Rightarrow> bool" where
  "max_due_now cfg s \<longleftrightarrow> maxWait cfg \<noteq> None \<and> maxTimeoutId s = None"

lemma debounced_fields [simp]:
  "now (debounced cfg this args s) = now s"
  "duringTick (debounced cfg this args s) = duringTick s"
  "nextId (debounced cfg this args s) =
     nextId s + (if trailing cfg then 1 else 0) + (if max_due_now cfg s then 1 else 0)"
  "queue (debounced cfg this args s) =
     without (timeoutId s) (queue s)
     @ (if trailing cfg then [Timer (nextId s) (now s + timer_delay (duringTick s) (wait cfg)) TimeoutCb] else [])
     @ (if max_due_now cfg s
        then [Timer (nextId s + (if trailing cfg then 1 else 0))
                (now s + timer_delay (duringTick s) (the (maxWait cfg))) MaxTimeoutCb]
        else [])"
  "timeoutId (debounced cfg this args s) = (if trailing cfg then Some (nextId s) else timeoutId s)"
  "maxTimeoutId (debounced cfg this args s) =
     (if max_due_now cfg s then Some (nextId s + (if trailing cfg then 1 else 0))
      else maxTimeoutId s)"
  "lastCallTime (debounced cfg this args s) = Some (now s)"
  "lastArgs (debounced cfg this args s) = (if leading_edge cfg s then None else Some args)"
  "lastThis (debounced cfg this args s) = (if leading_edge cfg s then None else this)"
  "deliveries (debounced cfg this args s) =
     deliveries s @ (if leading_edge cfg s then [(now s, this, args)] else [])"
  by (auto simp add: debounced_def clearTimeout_def setTimeout_def without_def Let_def
      leading_edge_def max_due_now_def split: option.splits)

lemma take_timer_fields [simp]:
  "now (take_timer tm s) = max (now s) (due tm)"
  "nextId (take_timer tm s) = nextId s"
  "duringTick (take_timer tm s) = duringTick s"
  "queue (take_timer tm s) = without (Some (handle tm)) (queue s)"
  "timeoutId (take_timer tm s) = timeoutId s"
  "lastArgs (take_timer tm s) = lastArgs s"
  "lastThis (take_timer tm s) = lastThis s"
  "deliveries (take_timer tm s) = deliveries s"
  by (simp_all add: take_timer_def without_def)

lemma take_timer_debounce_fields [simp]:
  "maxTimeoutId (take_timer tm s) = maxTimeoutId s"
  "lastCallTime (take_timer tm s) = lastCallTime s"
  by (simp_all add: take_timer_def)

lemma timeout_callback_fields [simp]:
  "now (timeout_callback cfg s) = now s"
  "nextId (timeout_callback cfg s) = nextId s"
  "duringTick (timeout_callback cfg s) = duringTick s"
  "queue (timeout_callback cfg s) = without (maxTimeoutId s) (queue s)"
  "timeoutId (timeout_callback cfg s) = None"
  "maxTimeoutId (timeout_callback cfg s) = None"
  "lastCallTime (timeout_callback cfg s) = None"
  "lastArgs (timeout_callback cfg s) = None"
  "lastThis (timeout_callback cfg s) = (if leading cfg \<and> lastArgs s = None then lastThis s else None)"
  "deliveries (timeout_callback cfg s) =
     deliveries s @ (case lastArgs s of Some a \<Rightarrow> [(now s, lastThis s, a)] | None \<Rightarrow> [])"
  by (auto simp add: timeout_callback_def clearTimeout_def without_def Let_def split: option.splits)

lemma maxTimeout_callback_fields [simp]:
  "now (maxTimeout_callback s) = now s"
  "nextId (maxTimeout_callback s) = nextId s"
  "duringTick (maxTimeout_callback s) = duringTick s"
  "queue (maxTimeout_callback s) = without (timeoutId s) (queue s)"
  "timeoutId (maxTimeout_callback s) = None"
  "maxTimeoutId (maxTimeout_callback s) = None"
  "lastCallTime (maxTimeout_callback s) = None"
  "lastArgs (maxTimeout_callback s) = None"
  "lastThis (maxTimeout_callback s) = None"
  "deliveries (maxTimeout_callback s) =
     deliveries s @ (case lastArgs s of Some a \<Rightarrow> [(now s, lastThis s, a)] | None \<Rightarrow> [])"
  by (auto simp add: maxTimeout_callback_def clearTimeout_def without_def Let_def split: option.splits)

definition timers_owned :: "('c, 'a) debounce_state \<Rightarrow> bool" where
  "timers_owned s \<longleftrightarrow>
     (\<forall>tm\<in>set (queue s). now s \<le> due tm \<and> handle tm < nextId s \<and>
        (callback tm = TimeoutCb \<and> timeoutId s = Some (handle tm) \<or>
         callback tm = MaxTimeoutCb \<and> maxTimeoutId s = Some (handle tm)))"

definition handles_live :: "('c, 'a) debounce_state \<Rightarrow> bool" where
  "handles_live s \<longleftrightarrow>
     (\<forall>h. timeoutId s = Some h \<longrightarrow> (\<exists>tm\<in>set (queue s). handle tm = h)) \<and>
     (\<forall>h. maxTimeoutId s = Some h \<longrightarrow> (\<exists>tm\<in>set (queue s). handle tm = h)) \<and>
     (timeoutId s \<noteq> None \<longrightarrow> timeoutId s \<noteq> maxTimeoutId s)"

definition coherent :: "debounce_config \<Rightarrow> ('c, 'a) debounce_state \<Rightarrow> bool" where
  "coherent cfg s \<longleftrightarrow>
     (lastArgs s = None \<longrightarrow> lastThis s = None) \<and>
     (lastCallTime s = None \<longrightarrow>
        lastArgs s = None \<and> timeoutId s = None \<and> maxTimeoutId s = None) \<and>
     (\<not> leading cfg \<and> lastArgs s = None \<longrightarrow> timeoutId s = None \<and> maxTimeoutId s = None) \<and>
     (timeoutId s \<noteq> None \<longrightarrow> trailing cfg) \<and>
     (maxTimeoutId s \<noteq> None \<longrightarrow> maxWait cfg \<noteq> None)"

definition debounce_inv :: "debounce_config \<Rightarrow> ('c, 'a) debounce_state \<Rightarrow> bool" where
  "debounce_inv cfg s \<longleftrightarrow>
     timers_owned s \<and> handles_live s \<and> coherent cfg s \<and> \<not> duringTick s"

lemma owned_cleared:
  "timers_owned s \<Longrightarrow> without (maxTimeoutId s) (without (timeoutId s) (queue s)) = []"
  unfolding timers_owned_def without_def
  by (cases "timeoutId s"; cases "maxTimeoutId s") (auto simp: filter_empty_conv)

lemma owned_cleared':
  "timers_owned s \<Longrightarrow> without (timeoutId s) (without (maxTimeoutId s) (queue s)) = []"
  unfolding timers_owned_def without_def
  by (cases "timeoutId s"; cases "maxTimeoutId s") (auto simp: filter_empty_conv)

lemma inv_cancel:
  assumes "debounce_inv cfg s"
  shows "debounce_inv cfg (debounce_cancel s)"
proof -
  from assms have "without (maxTimeoutId s) (without (timeoutId s) (queue s)) = []"
    by (simp add: debounce_inv_def owned_cleared)
  moreover from assms have "\<not> duringTick s"
    by (simp add: debounce_inv_def)
  ultimately show ?thesis
    by (simp add: debounce_inv_def timers_owned_def handles_live_def coherent_def)
qed

lemma inv_flush:
  assumes "debounce_inv cfg s"
  shows "debounce_inv cfg (flush s)"
proof -
  from assms have "without (maxTimeoutId s) (without (timeoutId s) (queue s)) = []"
    by (simp add: debounce_inv_def owned_cleared)
  moreover from assms have "coherent cfg s" "\<not> duringTick s"
    by (simp_all add: debounce_inv_def)
  ultimately show ?thesis
    by (simp add: debounce_inv_def timers_owned_def handles_live_def coherent_def)
qed

lemma inv_init: "debounce_inv cfg debounce_init"
  by (simp add: debounce_inv_def timers_owned_def handles_live_def coherent_def debounce_init_def)

lemma coherent_debounced:
  assumes "coherent cfg s"
  shows "coherent cfg (debounced cfg this args s)"
  using assms unfolding coherent_def
  by (auto simp: max_due_now_def leading_edge_def)

lemma without_subset: "tm \<in> set (without h q) \<Longrightarrow> tm \<in> set q \<and> h \<noteq> Some (handle tm)"
  by (cases h) (auto simp: without_def)

lemma owned_debounced:
  assumes "timers_owned s"
  shows "timers_owned (debounced cfg this args s)"
  unfolding timers_owned_def
proof (intro ballI)
  fix tm
  let ?s' = "debounced cfg this args s"
  assume "tm \<in> set (queue ?s')"
  then consider
    (old) "tm \<in> set (without (timeoutId s) (queue s))"
    | (new) "trailing cfg"
        "tm = Timer (nextId s) (now s + timer_delay (duringTick s) (wait cfg)) TimeoutCb"
    | (mx) "max_due_now cfg s"
        "tm = Timer (nextId s + (if trailing cfg then 1 else 0))
                (now s + timer_delay (duringTick s) (the (maxWait cfg))) MaxTimeoutCb"
    by (auto split: if_splits)
  then show "now ?s' \<le> due tm \<and> handle tm < nextId ?s' \<and>
        (callback tm = TimeoutCb \<and> timeoutId ?s' = Some (handle tm) \<or>
         callback tm = MaxTimeoutCb \<and> maxTimeoutId ?s' = Some (handle tm))"
  proof cases
    case old
    then have "tm \<in> set (queue s)" "timeoutId s \<noteq> Some (handle tm)"
      by (auto dest: without_subset)
    with assms have "now s \<le> due tm" "handle tm < nextId s" "callback tm = MaxTimeoutCb"
      "maxTimeoutId s = Some (handle tm)"
      unfolding timers_owned_def by auto
    then show ?thesis
      by (simp add: max_due_now_def)
  next
    case new
    then show ?thesis by simp
  next
    case mx
    then show ?thesis by simp
  qed
qed

lemma mem_without: "tm \<in> set q \<Longrightarrow> h \<noteq> Some (handle tm) \<Longrightarrow> tm \<in> set (without h q)"
  by (cases h) (auto simp: without_def)

lemma live_debounced:
  assumes own: "timers_owned s" and live: "handles_live s" and coh: "coherent cfg s"
  shows "handles_live (debounced cfg this args s)"
proof -
  let ?s' = "debounced cfg this args s"
  have max_old: "\<exists>tm\<in>set (queue s). handle tm = j \<and> j < nextId s \<and> timeoutId s \<noteq> Some j"
    if "maxTimeoutId s = Some j" for j
  proof -
    from live that obtain tm where tm: "tm \<in> set (queue s)" "handle tm = j"
      unfolding handles_live_def by blast
    with own have "j < nextId s"
      unfolding timers_owned_def by blast
    moreover from live that have "timeoutId s \<noteq> Some j"
      unfolding handles_live_def by auto
    ultimately show ?thesis
      using tm by blast
  qed
  have a: "\<exists>tm\<in>set (queue ?s'). handle tm = h" if "timeoutId ?s' = Some h" for h
  proof (cases "trailing cfg")
    case True
    with that show ?thesis by simp
  next
    case False
    with coh have "timeoutId s = None"
      unfolding coherent_def by auto
    with False that show ?thesis by simp
  qed
  have b: "\<exists>tm\<in>set (queue ?s'). handle tm = h" if "maxTimeoutId ?s' = Some h" for h
  proof (cases "max_due_now cfg s")
    case True
    with that show ?thesis by auto
  next
    case False
    with that have "maxTimeoutId s = Some h" by simp
    from max_old [OF this] obtain tm where "tm \<in> set (queue s)" "handle tm = h"
      "timeoutId s \<noteq> Some h" by blast
    then have "tm \<in> set (without (timeoutId s) (queue s))"
      by (simp add: mem_without)
    with \<open>handle tm = h\<close> show ?thesis
      by auto
  qed
  have c: "timeoutId ?s' \<noteq> maxTimeoutId ?s'" if "timeoutId ?s' \<noteq> None"
  proof (cases "trailing cfg")
    case True
    show ?thesis
    proof (cases "max_due_now cfg s")
      case True
      with \<open>trailing cfg\<close> show ?thesis by simp
    next
      case False
      show ?thesis
      proof (cases "maxTimeoutId s")
        case None
        with False \<open>trailing cfg\<close> show ?thesis by simp
      next
        case (Some j)
        from max_old [OF this] have "j < nextId s" by blast
        with Some False \<open>trailing cfg\<close> show ?thesis by simp
      qed
    qed
  next
    case False
    with coh have "timeoutId s = None"
      unfolding coherent_def by auto
    with False that show ?thesis by simp
  qed
  from a b c show ?thesis
    unfolding handles_live_def by blast
qed

lemma inv_debounced:
  "debounce_inv cfg s \<Longrightarrow> debounce_inv cfg (debounced cfg this args s)"
  by (simp add: debounce_inv_def owned_debounced live_debounced coherent_debounced)

definition fired :: "int \<Rightarrow> ('c, 'a) debounce_state \<Rightarrow> ('c, 'a) debounce_state" where
  "fired t s =
     s\<lparr>now := t, queue := [], timeoutId := None, lastArgs := None, lastThis := None,
       deliveries := deliveries s @
         (case lastArgs s of Some a \<Rightarrow> [(t, lastThis s, a)] | None \<Rightarrow> []),
       maxTimeoutId := None, lastCallTime := None\<rparr>"

lemma debounce_fire_fields [simp]:
  "now (debounce_fire cfg tm s) = max (now s) (due tm)"
  "nextId (debounce_fire cfg tm s) = nextId s"
  "duringTick (debounce_fire cfg tm s) = duringTick s"
  "queue (debounce_fire cfg tm s) =
     (case callback tm of
        TimeoutCb \<Rightarrow> without (maxTimeoutId s) (without (Some (handle tm)) (queue s))
      | MaxTimeoutCb \<Rightarrow> without (timeoutId s) (without (Some (handle tm)) (queue s)))"
  "timeoutId (debounce_fire cfg tm s) = None"
  "maxTimeoutId (debounce_fire cfg tm s) = None"
  "lastCallTime (debounce_fire cfg tm s) = None"
  "lastArgs (debounce_fire cfg tm s) = None"
  "deliveries (debounce_fire cfg tm s) =
     deliveries s @
       (case lastArgs s of Some a \<Rightarrow> [(max (now s) (due tm), lastThis s, a)] | None \<Rightarrow> [])"
  by (simp_all add: debounce_fire_def split: debounce_cb.splits option.splits)

lemma lastThis_debounce_fire:
  "lastArgs s = None \<longrightarrow> lastThis s = None \<Longrightarrow> lastThis (debounce_fire cfg tm s) = None"
  by (simp add: debounce_fire_def split: debounce_cb.splits)

lemma debounce_fire_eq:
  assumes own: "timers_owned s" and coh: "coherent cfg s" and tm: "tm \<in> set (queue s)"
  shows "debounce_fire cfg tm s = fired (due tm) s"
proof -
  from own tm have t: "now s \<le> due tm"
    unfolding timers_owned_def by blast
  from own tm have
    "callback tm = TimeoutCb \<and> timeoutId s = Some (handle tm) \<or>
     callback tm = MaxTimeoutCb \<and> maxTimeoutId s = Some (handle tm)"
    unfolding timers_owned_def by blast
  with owned_cleared [OF own] owned_cleared' [OF own]
  have q: "queue (debounce_fire cfg tm s) = []"
    by auto
  from coh have "lastThis (debounce_fire cfg tm s) = None"
    by (intro lastThis_debounce_fire) (simp add: coherent_def)
  with q t show ?thesis
    by (intro debounce_state.equality) (simp_all add: fired_def max_def split: option.splits)
qed

declare debounce_run_timers.simps [simp del]

lemma fired_fields [simp]:
  "now (fired t s) = t"
  "nextId (fired t s) = nextId s"
  "duringTick (fired t s) = duringTick s"
  "queue (fired t s) = []"
  "timeoutId (fired t s) = None"
  "maxTimeoutId (fired t s) = None"
  "lastCallTime (fired t s) = None"
  "lastArgs (fired t s) = None"
  "lastThis (fired t s) = None"
  "deliveries (fired t s) =
     deliveries s @ (case lastArgs s of Some a \<Rightarrow> [(t, lastThis s, a)] | None \<Rightarrow> [])"
  by (simp_all add: fired_def)

lemma inv_now: "debounce_inv cfg s \<Longrightarrow> \<forall>tm\<in>set (queue s). t < due tm \<Longrightarrow>
  debounce_inv cfg (s\<lparr>now := max (now s) t\<rparr>)"
  by (auto simp add: debounce_inv_def timers_owned_def handles_live_def coherent_def)

lemma debounce_run_timers_eq:
  assumes "timers_owned s" "coherent cfg s"
  shows "debounce_run_timers cfg target s =
     (case next_timer target (queue s) of
        None \<Rightarrow> s\<lparr>now := max (now s) target\<rparr>
      | Some tm \<Rightarrow> (fired (due tm) s)\<lparr>now := target\<rparr>)"
proof (cases "next_timer target (queue s)")
  case None
  then show ?thesis
    by (subst debounce_run_timers.simps) simp
next
  case (Some tm)
  then have tm: "tm \<in> set (queue s)" "due tm \<le> target"
    by (auto dest: next_timer_mem next_timer_due)
  with assms have "debounce_fire cfg tm s = fired (due tm) s"
    by (simp add: debounce_fire_eq)
  with Some have "debounce_run_timers cfg target s = debounce_run_timers cfg target (fired (due tm) s)"
    by (subst debounce_run_timers.simps) simp
  also have "\<dots> = (fired (due tm) s)\<lparr>now := max (due tm) target\<rparr>"
    by (subst debounce_run_timers.simps) simp
  finally show ?thesis
    using Some tm by (simp add: max_def)
qed

text \<open>
  An advance of time runs at most one timer of a debounced function: either callback
  clears the other timer.
\<close>

lemma debounce_advance_eq:
  assumes "debounce_inv cfg s"
  shows "debounce_advance cfg d s =
     (case next_timer (now s + d) (queue s) of
        None \<Rightarrow> s\<lparr>now := max (now s) (now s + d)\<rparr>
      | Some tm \<Rightarrow> (fired (due tm) s)\<lparr>now := now s + d\<rparr>)"
proof -
  let ?t = "s\<lparr>duringTick := True\<rparr>"
  from assms have t: "timers_owned ?t" "coherent cfg ?t" and flag: "\<not> duringTick s"
    by (simp_all add: debounce_inv_def timers_owned_def coherent_def)
  show ?thesis
  proof (cases "next_timer (now s + d) (queue s)")
    case None
    with flag show ?thesis
      unfolding debounce_advance_def debounce_run_timers_eq [OF t]
      by (intro debounce_state.equality) simp_all
  next
    case (Some tm)
    with flag show ?thesis
      unfolding debounce_advance_def debounce_run_timers_eq [OF t]
      by (intro debounce_state.equality) (simp_all add: fired_def split: option.splits)
  qed
qed

lemma inv_advance:
  assumes "debounce_inv cfg s"
  shows "debounce_inv cfg (debounce_advance cfg d s)"
proof (cases "next_timer (now s + d) (queue s)")
  case None
  then have "\<forall>tm\<in>set (queue s). now s + d < due tm"
    by (simp add: next_timer_None)
  with assms have "debounce_inv cfg (s\<lparr>now := max (now s) (now s + d)\<rparr>)"
    by (rule inv_now)
  with None assms show ?thesis
    by (simp add: debounce_advance_eq)
next
  case (Some tm)
  from assms have "debounce_inv cfg ((fired (due tm) s)\<lparr>now := now s + d\<rparr>)"
    by (simp add: debounce_inv_def timers_owned_def handles_live_def coherent_def)
  with Some assms show ?thesis
    by (simp add: debounce_advance_eq)
qed

lemma inv_step: "debounce_inv cfg s \<Longrightarrow> debounce_inv cfg (debounce_step cfg ev s)"
  by (cases ev) (simp_all add: inv_debounced inv_cancel inv_flush inv_advance)

lemma inv_run: "debounce_inv cfg s \<Longrightarrow> debounce_inv cfg (debounce_run cfg evs s)"
  by (induction evs arbitrary: s) (simp_all add: inv_step)

lemma inv_reachable: "debounce_inv cfg (debounce_run cfg evs debounce_init)"
  by (simp add: inv_run inv_init)

lemma debounce_run_append:
  "debounce_run cfg (evs @ evs') s = debounce_run cfg evs' (debounce_run cfg evs s)"
  by (induction evs arbitrary: s) simp_all

lemma debounce_advance_idle:
  "queue s = [] \<Longrightarrow>
   debounce_advance cfg d s = s\<lparr>now := max (now s) (now s + d), duringTick := False\<rparr>"
  unfolding debounce_advance_def by (subst debounce_run_timers.simps) simp

text \<open>For evaluating a run on given events: the definitions to unfold.\<close>

lemmas debounce_eval =
  leading_edge_def max_due_now_def debounce_init_def without_def debounce_advance_def
  debounce_run_timers.simps debounce_fire_def timer_delay_def maxTimeout_def Let_def pending_def

section \<open>Invariants of throttle\<close>

declare throttle_run_timers.simps [simp del]

lemma take_timer_throttle_fields [simp]:
  "inThrottle (take_timer tm s) = inThrottle s"
  by (simp add: take_timer_def)

lemma throttled_fields [simp]:
  "now (throttled w this args s) = now s"
  "duringTick (throttled w this args s) = duringTick s"
  "nextId (throttled w this args s) = (if inThrottle s then nextId s else Suc (nextId s))"
  "queue (throttled w this args s) =
     queue s @ (if inThrottle s then [] else [Timer (nextId s) (now s + timer_delay (duringTick s) w) CooldownCb])"
  "timeoutId (throttled w this args s) = (if inThrottle s then timeoutId s else Some (nextId s))"
  "lastArgs (throttled w this args s) = (if inThrottle s then Some args else None)"
  "lastThis (throttled w this args s) = (if inThrottle s then this else None)"
  "inThrottle (throttled w this args s) = True"
  "deliveries (throttled w this args s) =
     deliveries s @ (if inThrottle s then [] else [(now s, this, args)])"
  by (simp_all add: throttled_def setTimeout_def apply_func_def Let_def)

lemma throttle_cancel_fields [simp]:
  "now (throttle_cancel s) = now s"
  "nextId (throttle_cancel s) = nextId s"
  "duringTick (throttle_cancel s) = duringTick s"
  "queue (throttle_cancel s) = without (timeoutId s) (queue s)"
  "timeoutId (throttle_cancel s) = None"
  "lastArgs (throttle_cancel s) = None"
  "lastThis (throttle_cancel s) = None"
  "inThrottle (throttle_cancel s) = False"
  "deliveries (throttle_cancel s) = deliveries s"
  by (simp_all add: throttle_cancel_def clearTimeout_def without_def Let_def split: option.splits)

lemma throttle_fire_fields [simp]:
  "now (throttle_fire w tm s) = max (now s) (due tm)"
  "duringTick (throttle_fire w tm s) = duringTick s"
  "nextId (throttle_fire w tm s) = (if lastArgs s = None then nextId s else Suc (nextId s))"
  "queue (throttle_fire w tm s) =
     without (Some (handle tm)) (queue s) @
       (if lastArgs s = None then []
        else [Timer (nextId s) (max (now s) (due tm) + timer_delay (duringTick s) w) CooldownCb])"
  "timeoutId (throttle_fire w tm s) = (if lastArgs s = None then timeoutId s else Some (nextId s))"
  "lastArgs (throttle_fire w tm s) = None"
  "lastThis (throttle_fire w tm s) = (if lastArgs s = None then lastThis s else None)"
  "inThrottle (throttle_fire w tm s) = (lastArgs s \<noteq> None)"
  "deliveries (throttle_fire w tm s) =
     deliveries s @
       (case lastArgs s of Some a \<Rightarrow> [(max (now s) (due tm), lastThis s, a)] | None \<Rightarrow> [])"
  by (auto simp add: throttle_fire_def throttle_callback_def Let_def
      split: throttle_cb.splits option.splits)

definition throttle_inv :: "('c, 'a) throttle_state \<Rightarrow> bool" where
  "throttle_inv s \<longleftrightarrow>
     (if inThrottle s
      then \<exists>h d. queue s = [Timer h d CooldownCb] \<and> timeoutId s = Some h \<and> now s \<le> d
      else queue s = [] \<and> lastArgs s = None) \<and>
     (lastArgs s = None \<longrightarrow> lastThis s = None)"

lemma throttle_inv_init: "throttle_inv throttle_init"
  by (simp add: throttle_inv_def throttle_init_def)

lemma throttle_inv_throttled: "throttle_inv s \<Longrightarrow> throttle_inv (throttled w this args s)"
  by (auto simp add: throttle_inv_def)

lemma throttle_inv_cancel: "throttle_inv s \<Longrightarrow> throttle_inv (throttle_cancel s)"
  by (cases "timeoutId s") (auto simp add: throttle_inv_def without_def split: if_splits)

lemma throttle_inv_fire:
  "throttle_inv s \<Longrightarrow> tm \<in> set (queue s) \<Longrightarrow> throttle_inv (throttle_fire w tm s)"
  by (auto simp add: throttle_inv_def without_def split: if_splits)

lemma throttle_inv_clock:
  "throttle_inv s \<Longrightarrow> \<forall>tm\<in>set (queue s). t < due tm \<Longrightarrow> throttle_inv (s\<lparr>now := max (now s) t\<rparr>)"
  by (auto simp add: throttle_inv_def split: if_splits)

lemma throttle_run_timers_rule_obj:
  "I s \<Longrightarrow>
   (\<forall>s tm. I s \<longrightarrow> next_timer target (queue s) = Some tm \<longrightarrow> I (throttle_fire w tm s)) \<Longrightarrow>
   (\<forall>s. I s \<longrightarrow> next_timer target (queue s) = None \<longrightarrow> Q (s\<lparr>now := max (now s) target\<rparr>)) \<Longrightarrow>
   Q (throttle_run_timers w target s)"
proof (induction w target s rule: throttle_run_timers.induct)
  case (1 w target s)
  show ?case
  proof (cases "next_timer target (queue s)")
    case None
    with "1.prems" have "Q (s\<lparr>now := max (now s) target\<rparr>)"
      by blast
    with None show ?thesis
      by (subst throttle_run_timers.simps) simp
  next
    case (Some tm)
    with "1.prems" have "I (throttle_fire w tm s)"
      by blast
    from "1.IH" [OF Some this "1.prems"(2,3)] have "Q (throttle_run_timers w target (throttle_fire w tm s))" .
    with Some show ?thesis
      by (subst throttle_run_timers.simps) simp
  qed
qed

lemma throttle_run_timers_rule:
  assumes "I s"
    and "\<And>s tm. I s \<Longrightarrow> next_timer target (queue s) = Some tm \<Longrightarrow> I (throttle_fire w tm s)"
    and "\<And>s. I s \<Longrightarrow> next_timer target (queue s) = None \<Longrightarrow> Q (s\<lparr>now := max (now s) target\<rparr>)"
  shows "Q (throttle_run_timers w target s)"
  using assms by (intro throttle_run_timers_rule_obj [where I = I and Q = Q]) blast+

lemma throttle_inv_flag: "throttle_inv (s\<lparr>duringTick := b\<rparr>) = throttle_inv s"
  by (simp add: throttle_inv_def)

lemma throttle_inv_advance:
  assumes "throttle_inv s"
  shows "throttle_inv (throttle_advance w d s)"
  unfolding throttle_advance_def throttle_inv_flag
proof (rule throttle_run_timers_rule [where I = throttle_inv])
  show "throttle_inv (s\<lparr>duringTick := True\<rparr>)"
    using assms by (simp add: throttle_inv_flag)
next
  fix s' :: "('a, 'b) throttle_state" and tm
  assume "throttle_inv s'" "next_timer (now s + d) (queue s') = Some tm"
  then show "throttle_inv (throttle_fire w tm s')"
    by (simp add: throttle_inv_fire next_timer_mem)
next
  fix s' :: "('a, 'b) throttle_state"
  assume "throttle_inv s'" "next_timer (now s + d) (queue s') = None"
  then show "throttle_inv (s'\<lparr>now := max (now s') (now s + d)\<rparr>)"
    by (simp add: throttle_inv_clock next_timer_None)
qed

lemma throttle_inv_step: "throttle_inv s \<Longrightarrow> throttle_inv (throttle_step w ev s)"
  by (cases ev) (simp_all add: throttle_inv_throttled throttle_inv_cancel throttle_inv_advance)

lemma throttle_inv_run: "throttle_inv s \<Longrightarrow> throttle_inv (throttle_run w evs s)"
  by (induction evs arbitrary: s) (simp_all add: throttle_inv_step)

lemma throttle_inv_reachable: "throttle_inv (throttle_run w evs throttle_init)"
  by (simp add: throttle_inv_run throttle_inv_init)

lemma throttle_run_append:
  "throttle_run w (evs @ evs') s = throttle_run w evs' (throttle_run w evs s)"
  by (induction evs arbitrary: s) simp_all

text \<open>Between two events no timer callback is running.\<close>

lemma throttle_step_flag: "\<not> duringTick s \<Longrightarrow> \<not> duringTick (throttle_step w ev s)"
  by (cases ev) (simp_all add: throttle_advance_def)

lemma throttle_reachable_flag: "\<not> duringTick (throttle_run w evs throttle_init)"
proof -
  have "\<not> duringTick s \<Longrightarrow> \<not> duringTick (throttle_run w evs s)" for s :: "('a, 'b) throttle_state"
    by (induction evs arbitrary: s) (simp_all add: throttle_step_flag)
  then show ?thesis
    by (simp add: throttle_init_def)
qed

lemma throttle_advance_idle:
  "queue s = [] \<Longrightarrow>
   throttle_advance w d s = s\<lparr>now := max (now s) (now s + d), duringTick := False\<rparr>"
  unfolding throttle_advance_def by (subst throttle_run_timers.simps) simp


section \<open>Debounce collapses bursts\<close>

text \<open>
  A burst after its first call: each further call comes either in the same turn as
  the call before it (\<open>None\<close>: no timer can run in between) or after an advance of the
  clock (\<open>Some g\<close>).
\<close>

fun burst_events :: "(int option \<times> 'c option \<times> 'a) list \<Rightarrow> ('c, 'a) event list" where
  "burst_events [] = []"
| "burst_events ((None, this, args) # rest) = Call this args # burst_events rest"
| "burst_events ((Some g, this, args) # rest) = Advance g # Call this args # burst_events rest"

definition gap :: "int option \<times> 'x \<Rightarrow> int" where
  "gap x = (case fst x of None \<Rightarrow> 0 | Some g \<Rightarrow> g)"

text \<open>
  With the default options a call leaves exactly one timer, due \<open>wait\<close> after the
  call, and the call's arguments and context pending.
\<close>

definition armed ::
  "debounce_config \<Rightarrow> int \<Rightarrow> 'c option \<times> 'a \<Rightarrow> (int \<times> 'c option \<times> 'a) list \<Rightarrow>
   ('c, 'a) debounce_state \<Rightarrow> bool" where
  "armed cfg t ca D s \<longleftrightarrow>
     debounce_inv cfg s \<and> now s = t \<and>
     (\<exists>h. queue s = [Timer h (t + wait cfg) TimeoutCb]) \<and>
     lastArgs s = Some (snd ca) \<and> lastThis s = fst ca \<and> deliveries s = D"

lemma armed_call:
  assumes inv: "debounce_inv cfg s"
    and cfg: "\<not> leading cfg" "trailing cfg" "maxWait cfg = None"
    and w: "0 \<le> wait cfg" "wait cfg \<le> maxTimeout"
  shows "armed cfg (now s) (c, a) (deliveries s) (debounced cfg c a s)"
proof -
  from inv cfg have m: "maxTimeoutId s = None"
    by (auto simp: debounce_inv_def coherent_def)
  from inv have "without (maxTimeoutId s) (without (timeoutId s) (queue s)) = []"
    by (simp add: debounce_inv_def owned_cleared)
  with m have "without (timeoutId s) (queue s) = []"
    by (simp add: without_def)
  moreover from inv w have "timer_delay (duringTick s) (wait cfg) = wait cfg"
    by (simp add: debounce_inv_def timer_delay_outside)
  ultimately show ?thesis
    using cfg inv_debounced [OF inv, of c a]
    by (simp add: armed_def max_due_now_def leading_edge_def)
qed

lemma armed_wait:
  assumes "armed cfg t ca D s" "g < wait cfg"
  shows "debounce_advance cfg g s = s\<lparr>now := max t (t + g)\<rparr>"
  using assms
  by (auto simp add: armed_def debounce_advance_eq)

lemma armed_fires:
  assumes "armed cfg t ca D s" "wait cfg \<le> d"
  shows "deliveries (debounce_advance cfg d s) = D @ [(t + wait cfg, ca)]"
  using assms
  by (cases ca) (auto simp add: armed_def debounce_advance_eq)

lemma armed_burst:
  assumes "armed cfg t ca D s"
    and "\<not> leading cfg" "trailing cfg" "maxWait cfg = None"
    and "0 \<le> wait cfg" "wait cfg \<le> maxTimeout"
    and "\<forall>x\<in>set rest. \<forall>g. fst x = Some g \<longrightarrow> 0 \<le> g \<and> g < wait cfg"
  shows "armed cfg (t + sum_list (map gap rest)) (last (ca # map snd rest)) D
           (debounce_run cfg (burst_events rest) s)"
  using assms
proof (induction rest arbitrary: t ca s)
  case Nil
  then show ?case by simp
next
  case (Cons x rest)
  obtain og c a where x: "x = (og, c, a)"
    by (cases x)
  from Cons.prems(1) have inv: "debounce_inv cfg s" and t: "now s = t" and D: "deliveries s = D"
    by (simp_all add: armed_def)
  have step: "\<exists>s1. debounce_run cfg (burst_events (x # rest)) s =
        debounce_run cfg (burst_events rest) (debounced cfg c a s1) \<and>
      debounce_inv cfg s1 \<and> now s1 = t + gap x \<and> deliveries s1 = D"
  proof (cases og)
    case None
    with x inv t D show ?thesis
      by (auto simp: gap_def)
  next
    case (Some g)
    with x Cons.prems(7) have g: "0 \<le> g" "g < wait cfg"
      by auto
    with Cons.prems(1) have "debounce_advance cfg g s = s\<lparr>now := max t (t + g)\<rparr>"
      by (simp add: armed_wait)
    with g t D have "now (debounce_advance cfg g s) = t + g" "deliveries (debounce_advance cfg g s) = D"
      by simp_all
    with x Some inv_advance [OF inv, of g] show ?thesis
      by (auto simp: gap_def)
  qed
  then obtain s1 where s1: "debounce_run cfg (burst_events (x # rest)) s =
        debounce_run cfg (burst_events rest) (debounced cfg c a s1)"
      "debounce_inv cfg s1" "now s1 = t + gap x" "deliveries s1 = D"
    by blast
  with armed_call [OF s1(2) Cons.prems(2-6), of c a]
  have "armed cfg (t + gap x) (c, a) D (debounced cfg c a s1)"
    by simp
  from Cons.IH [OF this Cons.prems(2-6)] Cons.prems(7)
  have "armed cfg (t + gap x + sum_list (map gap rest)) (last ((c, a) # map snd rest)) D
          (debounce_run cfg (burst_events rest) (debounced cfg c a s1))"
    by simp
  with x s1(1) show ?case
    by (simp add: add.assoc)
qed

text \<open>
  The claim C1 as stated fails at the ends of its range.  When a call comes exactly
  \<open>wait\<close> ms after the one before, the timer of that call is due and runs first, and
  both calls are delivered.  When \<open>wait\<close> is above \<open>2^31 - 1\<close> the platform sets the
  timer 1 ms ahead, and calls 10 ms apart are each delivered.
\<close>

theorem debounce_burst_counterexample:
  "deliveries (debounce_run \<lparr>wait = 100, leading = False, trailing = True, maxWait = None\<rparr>
      [Call None ''a'', Advance 100, Call None ''b'', Advance 100]
      (debounce_init :: (string, string) debounce_state)) =
     [(100, None, ''a''), (200, None, ''b'')] \<and>
   deliveries (debounce_run \<lparr>wait = 2147483648, leading = False, trailing = True, maxWait = None\<rparr>
      [Call None ''a'', Advance 10, Call None ''b'', Advance 10]
      (debounce_init :: (string, string) debounce_state)) =
     [(1, None, ''a''), (11, None, ''b'')]"
  by (simp add: debounce_eval)

text \<open>
  Claim C1, amended.  A debounced function with the default options (no leading edge,
  trailing edge, no \<open>maxWait\<close>) and a wait of \<open>w\<close> whole milliseconds,
  \<open>0 \<le> w \<le> 2^31 - 1\<close>, is called \<open>N \<ge> 1\<close> times, after any history \<open>evs\<close>: first with
  \<open>(c, a)\<close>, then, for each element of \<open>rest\<close>, with its context and arguments, either
  in the same turn as the call before or \<open>g\<close> ms after it with \<open>0 \<le> g < w\<close>, so before
  the timer of the call before is due.  Then time advances by \<open>d\<close>.  The burst
  delivers nothing while it lasts, and exactly once afterwards: \<open>w\<close> ms after the last
  call, with the context and arguments of the last call, as soon as \<open>d\<close> reaches \<open>w\<close>.
\<close>

theorem debounce_collapses_burst:
  assumes "debounce w options = Inr (cfg, s0)"
    and "\<not> leading cfg" "trailing cfg" "maxWait cfg = None"
    and "0 \<le> w" "w \<le> 2147483647"
    and "\<forall>x\<in>set rest. \<forall>g. fst x = Some g \<longrightarrow> 0 \<le> g \<and> g < w"
  shows "deliveries (debounce_run cfg (evs @ Call c a # burst_events rest @ [Advance d]) s0) =
         deliveries (debounce_run cfg evs s0) @
           (if w \<le> d
            then [(now (debounce_run cfg evs s0) + sum_list (map gap rest) + w,
                   last ((c, a) # map snd rest))]
            else [])"
proof -
  let ?s = "debounce_run cfg evs s0"
  from assms(1) have w: "wait cfg = w" and s0: "s0 = debounce_init"
    by (auto simp: debounce_def)
  have inv: "debounce_inv cfg ?s"
    unfolding s0 by (rule inv_reachable)
  from assms(2-6) w have cfg: "\<not> leading cfg" "trailing cfg" "maxWait cfg = None"
    "0 \<le> wait cfg" "wait cfg \<le> maxTimeout"
    by (simp_all add: maxTimeout_def)
  let ?t = "now ?s + sum_list (map gap rest)"
  let ?b = "debounce_run cfg (burst_events rest) (debounced cfg c a ?s)"
  from assms(7) w have "\<forall>x\<in>set rest. \<forall>g. fst x = Some g \<longrightarrow> 0 \<le> g \<and> g < wait cfg"
    by simp
  with armed_burst [OF armed_call [OF inv cfg, of c a] cfg]
  have ar: "armed cfg ?t (last ((c, a) # map snd rest)) (deliveries ?s) ?b"
    by blast
  have run: "debounce_run cfg (evs @ Call c a # burst_events rest @ [Advance d]) s0 =
      debounce_advance cfg d ?b"
    by (simp add: debounce_run_append)
  show ?thesis
  proof (cases "w \<le> d")
    case True
    with ar w show ?thesis
      unfolding run by (simp add: armed_fires)
  next
    case False
    with ar w have "debounce_advance cfg d ?b = ?b\<lparr>now := max ?t (?t + d)\<rparr>"
      by (simp add: armed_wait)
    with ar False show ?thesis
      unfolding run by (simp add: armed_def)
  qed
qed

theorem debounce_collapses_burst_witness:
  "deliveries (debounce_run \<lparr>wait = 100, leading = False, trailing = True, maxWait = None\<rparr>
      [Call None ''a'', Advance 30, Call None ''b'', Call None ''b2'', Advance 30,
       Call (Some ''ctx'') ''c'', Advance 100]
      (debounce_init :: (string, string) debounce_state)) = [(160, Some ''ctx'', ''c'')] \<and>
   deliveries (debounce_run \<lparr>wait = 0, leading = False, trailing = True, maxWait = None\<rparr>
      [Call None ''a'', Call None ''b'', Advance 0]
      (debounce_init :: (string, string) debounce_state)) = [(0, None, ''b'')]"
  using debounce_collapses_burst [of 100 "\<lparr>opt_leading = None, opt_trailing = None, opt_maxWait = None\<rparr>"
      "\<lparr>wait = 100, leading = False, trailing = True, maxWait = None\<rparr>" debounce_init
      "[(Some 30, None, ''b''), (None, None, ''b2''), (Some 30, Some ''ctx'', ''c'')]"
      "[]" None "''a''" 100]
    debounce_collapses_burst [of 0 "\<lparr>opt_leading = None, opt_trailing = None, opt_maxWait = None\<rparr>"
      "\<lparr>wait = 0, leading = False, trailing = True, maxWait = None\<rparr>"
      "debounce_init :: (string, string) debounce_state"
      "[(None, None, ''b'')]" "[]" None "''a''" 0]
  by (simp add: debounce_def debounce_init_def gap_def)

section \<open>Cancel suppresses delivery\<close>

lemma debounce_idle_advances:
  "queue s = [] \<Longrightarrow>
   queue (debounce_run cfg (map Advance ds) s) = [] \<and>
   deliveries (debounce_run cfg (map Advance ds) s) = deliveries s"
  by (induction ds arbitrary: s) (simp_all add: debounce_advance_idle)

lemma throttle_idle_advances:
  "queue s = [] \<Longrightarrow>
   queue (throttle_run w (map TAdvance ds) s) = [] \<and>
   deliveries (throttle_run w (map TAdvance ds) s) = deliveries s"
  by (induction ds arbitrary: s) (simp_all add: throttle_advance_idle)

lemma debounce_cancel_eq:
  assumes "debounce_inv cfg s"
  shows "debounce_cancel s =
    debounce_init\<lparr>now := now s, nextId := nextId s, deliveries := deliveries s\<rparr>"
proof -
  from assms have "without (maxTimeoutId s) (without (timeoutId s) (queue s)) = []"
    by (simp add: debounce_inv_def owned_cleared)
  moreover from assms have "\<not> duringTick s"
    by (simp add: debounce_inv_def)
  ultimately show ?thesis
    by (intro debounce_state.equality) (simp_all add: debounce_init_def)
qed

lemma throttle_cancel_eq:
  assumes "throttle_inv s" "\<not> duringTick s"
  shows "throttle_cancel s =
    throttle_init\<lparr>now := now s, nextId := nextId s, deliveries := deliveries s\<rparr>"
proof -
  from assms have "without (timeoutId s) (queue s) = []"
    by (cases "timeoutId s") (auto simp: throttle_inv_def without_def split: if_splits)
  with assms(2) show ?thesis
    by (intro throttle_state.equality) (simp_all add: throttle_init_def)
qed

text \<open>
  A timer that is already due: with \<open>wait = 0\<close> the timer of a call is due at once,
  and \<open>cancel()\<close> before the next turn of the timers still keeps it from running.
\<close>

lemma cancel_due_timer:
  "queue (debounce_run \<lparr>wait = 0, leading = False, trailing = True, maxWait = None\<rparr>
      [Call None ''a''] (debounce_init :: (string, string) debounce_state)) =
     [Timer 1 0 TimeoutCb] \<and>
   deliveries (debounce_run \<lparr>wait = 0, leading = False, trailing = True, maxWait = None\<rparr>
      [Call None ''a'', Cancel, Advance 0, Advance 1000]
      (debounce_init :: (string, string) debounce_state)) = []"
  by (simp add: debounce_eval)

text \<open>
  Claim C5.  After any history \<open>evs\<close> of a debounced function (\<open>tevs\<close> of a throttled
  one), \<open>cancel()\<close> leaves the controller as it was when constructed, but for the
  clock, the next handle and the deliveries already made: nothing of the earlier calls
  is left in it.  \<open>clearTimeout\<close> has taken the controller's timers out of the
  platform's queue, which is empty whatever their due times were, and however far time
  advances afterwards (\<open>ds\<close>, \<open>ds'\<close>) nothing more is delivered.
\<close>

theorem cancel_suppresses_delivery:
  "debounce_cancel (debounce_run cfg evs debounce_init) =
     debounce_init\<lparr>now := now (debounce_run cfg evs debounce_init),
                    nextId := nextId (debounce_run cfg evs debounce_init),
                    deliveries := deliveries (debounce_run cfg evs debounce_init)\<rparr> \<and>
   queue (debounce_cancel (debounce_run cfg evs debounce_init)) = [] \<and>
   deliveries (debounce_run cfg (evs @ Cancel # map Advance ds) debounce_init) =
     deliveries (debounce_run cfg evs debounce_init) \<and>
   throttle_cancel (throttle_run w tevs throttle_init) =
     throttle_init\<lparr>now := now (throttle_run w tevs throttle_init),
                    nextId := nextId (throttle_run w tevs throttle_init),
                    deliveries := deliveries (throttle_run w tevs throttle_init)\<rparr> \<and>
   queue (throttle_cancel (throttle_run w tevs throttle_init)) = [] \<and>
   deliveries (throttle_run w (tevs @ TCancel # map TAdvance ds') throttle_init) =
     deliveries (throttle_run w tevs throttle_init)"
proof -
  let ?s = "debounce_run cfg evs debounce_init"
  let ?t = "throttle_run w tevs throttle_init"
  have d1: "debounce_cancel ?s =
      debounce_init\<lparr>now := now ?s, nextId := nextId ?s, deliveries := deliveries ?s\<rparr>"
    by (rule debounce_cancel_eq) (rule inv_reachable)
  then have d2: "queue (debounce_cancel ?s) = []"
    by (simp add: debounce_init_def)
  from debounce_idle_advances [OF d2, of cfg ds]
  have d3: "deliveries (debounce_run cfg (evs @ Cancel # map Advance ds) debounce_init) = deliveries ?s"
    by (simp add: debounce_run_append)
  have t1: "throttle_cancel ?t =
      throttle_init\<lparr>now := now ?t, nextId := nextId ?t, deliveries := deliveries ?t\<rparr>"
    by (rule throttle_cancel_eq) (rule throttle_inv_reachable throttle_reachable_flag)+
  then have t2: "queue (throttle_cancel ?t) = []"
    by (simp add: throttle_init_def)
  from throttle_idle_advances [OF t2, of w ds']
  have t3: "deliveries (throttle_run w (tevs @ TCancel # map TAdvance ds') throttle_init) = deliveries ?t"
    by (simp add: throttle_run_append)
  from d1 d2 d3 t1 t2 t3 show ?thesis
    by blast
qed

section \<open>Flush\<close>

lemma flush_queue_empty: "debounce_inv cfg s \<Longrightarrow> queue (flush s) = []"
  by (simp add: debounce_inv_def owned_cleared)

lemma flush_idle:
  assumes "timeoutId s = None" "maxTimeoutId s = None" "lastArgs s = None"
  shows "flush s = s"
  using assms by (intro debounce_state.equality) (simp_all add: without_def)

lemma pending_iff_timer:
  assumes "debounce_inv cfg s"
  shows "pending s \<longleftrightarrow> (\<exists>tm\<in>set (queue s). callback tm = TimeoutCb)"
proof
  assume "pending s"
  then obtain h where h: "timeoutId s = Some h"
    by (auto simp: pending_def)
  with assms obtain tm where tm: "tm \<in> set (queue s)" "handle tm = h"
    unfolding debounce_inv_def handles_live_def by blast
  with assms h have "callback tm = TimeoutCb"
    unfolding debounce_inv_def timers_owned_def handles_live_def by force
  with tm show "\<exists>tm\<in>set (queue s). callback tm = TimeoutCb"
    by blast
next
  assume "\<exists>tm\<in>set (queue s). callback tm = TimeoutCb"
  with assms show "pending s"
    unfolding debounce_inv_def timers_owned_def pending_def by force
qed

text \<open>
  The claim C6 as stated fails with the leading edge enabled: the first call is
  delivered at once, nothing is pending, and \<open>flush()\<close> still clears the timer.  The
  burst then never ends by its timer, so the call made after \<open>wait\<close> has no leading
  delivery any more.
\<close>

theorem flush_not_noop_counterexample:
  "lastArgs (debounced \<lparr>wait = 100, leading = True, trailing = True, maxWait = None\<rparr>
      None ''a'' (debounce_init :: (string, string) debounce_state)) = None \<and>
   pending (debounced \<lparr>wait = 100, leading = True, trailing = True, maxWait = None\<rparr>
      None ''a'' (debounce_init :: (string, string) debounce_state)) \<and>
   \<not> pending (flush (debounced \<lparr>wait = 100, leading = True, trailing = True, maxWait = None\<rparr>
      None ''a'' (debounce_init :: (string, string) debounce_state))) \<and>
   deliveries (debounce_run \<lparr>wait = 100, leading = True, trailing = True, maxWait = None\<rparr>
      [Call None ''a'', Flush, Advance 100, Call None ''b'']
      (debounce_init :: (string, string) debounce_state)) = [(0, None, ''a'')] \<and>
   deliveries (debounce_run \<lparr>wait = 100, leading = True, trailing = True, maxWait = None\<rparr>
      [Call None ''a'', Advance 100, Call None ''b'']
      (debounce_init :: (string, string) debounce_state)) = [(0, None, ''a''), (100, None, ''b'')]"
  by (simp add: debounce_eval)

text \<open>
  Claim C6, amended.  In every reachable state \<open>s\<close> of a debounced function: if a call
  is pending, with arguments \<open>a\<close>, \<open>flush()\<close> delivers it at once, exactly once, with
  \<open>a\<close> and the pending context; whether or not a call is pending, \<open>flush()\<close> clears
  both timers and the pending state, and however far time advances afterwards
  (\<open>ds\<close>) nothing more is delivered; if no call is pending, \<open>flush()\<close> delivers
  nothing, and it changes nothing at all when no timer is scheduled, which is always
  so when the leading edge is disabled.
\<close>

theorem flush_delivers_pending:
  "(\<forall>a. lastArgs (debounce_run cfg evs debounce_init) = Some a \<longrightarrow>
      deliveries (flush (debounce_run cfg evs debounce_init)) =
        deliveries (debounce_run cfg evs debounce_init) @
          [(now (debounce_run cfg evs debounce_init),
            lastThis (debounce_run cfg evs debounce_init), a)]) \<and>
   timeoutId (flush (debounce_run cfg evs debounce_init)) = None \<and>
   maxTimeoutId (flush (debounce_run cfg evs debounce_init)) = None \<and>
   queue (flush (debounce_run cfg evs debounce_init)) = [] \<and>
   lastArgs (flush (debounce_run cfg evs debounce_init)) = None \<and>
   lastThis (flush (debounce_run cfg evs debounce_init)) = None \<and>
   deliveries (debounce_run cfg (evs @ Flush # map Advance ds) debounce_init) =
     deliveries (flush (debounce_run cfg evs debounce_init)) \<and>
   (lastArgs (debounce_run cfg evs debounce_init) = None \<longrightarrow>
      deliveries (flush (debounce_run cfg evs debounce_init)) =
        deliveries (debounce_run cfg evs debounce_init)) \<and>
   (lastArgs (debounce_run cfg evs debounce_init) = None \<and>
    (\<not> leading cfg \<or>
     \<not> pending (debounce_run cfg evs debounce_init) \<and>
     maxTimeoutId (debounce_run cfg evs debounce_init) = None) \<longrightarrow>
      flush (debounce_run cfg evs debounce_init) = debounce_run cfg evs debounce_init)"
proof -
  let ?s = "debounce_run cfg evs debounce_init"
  have inv: "debounce_inv cfg ?s"
    by (rule inv_reachable)
  then have coh: "coherent cfg ?s"
    by (simp add: debounce_inv_def)
  have q: "queue (flush ?s) = []"
    using inv by (rule flush_queue_empty)
  have this_None: "lastThis (flush ?s) = None"
    using coh by (simp add: coherent_def)
  from debounce_idle_advances [OF q, of cfg ds]
  have later: "deliveries (debounce_run cfg (evs @ Flush # map Advance ds) debounce_init) =
      deliveries (flush ?s)"
    by (simp add: debounce_run_append)
  have noop: "flush ?s = ?s"
    if "lastArgs ?s = None"
      "\<not> leading cfg \<or> \<not> pending ?s \<and> maxTimeoutId ?s = None"
  proof -
    from that coh have "timeoutId ?s = None \<and> maxTimeoutId ?s = None"
      unfolding coherent_def pending_def by blast
    with that(1) show ?thesis
      by (simp add: flush_idle)
  qed
  have a: "\<forall>a. lastArgs ?s = Some a \<longrightarrow>
      deliveries (flush ?s) = deliveries ?s @ [(now ?s, lastThis ?s, a)]"
    by simp
  have b: "lastArgs ?s = None \<longrightarrow> deliveries (flush ?s) = deliveries ?s"
    by simp
  have c: "timeoutId (flush ?s) = None" "maxTimeoutId (flush ?s) = None"
    "lastArgs (flush ?s) = None"
    by simp_all
  from a b c q this_None later noop show ?thesis
    by blast
qed

theorem flush_delivers_pending_witness:
  "deliveries (debounce_run \<lparr>wait = 100, leading = False, trailing = True, maxWait = None\<rparr>
      [Call (Some ''ctx'') ''a'', Advance 40, Flush, Advance 100]
      (debounce_init :: (string, string) debounce_state)) = [(40, Some ''ctx'', ''a'')] \<and>
   flush (debounce_init :: (string, string) debounce_state) = debounce_init"
  using flush_delivers_pending [of "\<lparr>wait = 100, leading = False, trailing = True, maxWait = None\<rparr>"
      "[Call (Some ''ctx'') ''a'', Advance 40] :: (string, string) event list" "[100]"]
    flush_delivers_pending [of "\<lparr>wait = 100, leading = False, trailing = True, maxWait = None\<rparr>"
      "[] :: (string, string) event list" "[]"]
  by (simp add: debounce_eval)

section \<open>pending\<close>

text \<open>
  The claim C8 as stated fails in two places.  With the trailing edge disabled a call
  schedules no primary timer, and \<open>pending()\<close> is false right after it.  With the
  leading edge enabled the first call is delivered inside the call, and \<open>pending()\<close>
  is true right after that delivery.
\<close>

theorem pending_after_call_counterexample:
  "\<not> pending (debounced \<lparr>wait = 100, leading = True, trailing = False, maxWait = None\<rparr>
      None ''a'' (debounce_init :: (string, string) debounce_state)) \<and>
   deliveries (debounced \<lparr>wait = 100, leading = True, trailing = True, maxWait = None\<rparr>
      None ''a'' (debounce_init :: (string, string) debounce_state)) = [(0, None, ''a'')] \<and>
   pending (debounced \<lparr>wait = 100, leading = True, trailing = True, maxWait = None\<rparr>
      None ''a'' (debounce_init :: (string, string) debounce_state))"
  by (simp add: pending_def leading_edge_def debounce_init_def)

text \<open>
  Claim C8, amended.  In every reachable state \<open>s\<close> of a debounced function,
  \<open>pending()\<close> is true exactly when a primary timer is in the platform's queue.  It is
  false before any call; right after a call it is true exactly when the trailing edge
  is enabled; it is false right after \<open>cancel()\<close>, right after \<open>flush()\<close>, and right
  after an advance of time in which a timer has run (so after every delivery made by a
  timer).
\<close>

theorem pending_reflects_timer:
  "(pending (debounce_run cfg evs (debounce_init :: ('c, 'a) debounce_state)) \<longleftrightarrow>
      (\<exists>tm\<in>set (queue (debounce_run cfg evs debounce_init)). callback tm = TimeoutCb)) \<and>
   \<not> pending (debounce_init :: ('c, 'a) debounce_state) \<and>
   (pending (debounced cfg c a (debounce_run cfg evs debounce_init)) \<longleftrightarrow> trailing cfg) \<and>
   \<not> pending (debounce_cancel (debounce_run cfg evs debounce_init)) \<and>
   \<not> pending (flush (debounce_run cfg evs debounce_init)) \<and>
   (next_timer (now (debounce_run cfg evs debounce_init) + d)
      (queue (debounce_run cfg evs debounce_init)) \<noteq> None \<longrightarrow>
      \<not> pending (debounce_advance cfg d (debounce_run cfg evs debounce_init))) \<and>
   (deliveries (debounce_advance cfg d (debounce_run cfg evs debounce_init)) \<noteq>
      deliveries (debounce_run cfg evs debounce_init) \<longrightarrow>
      \<not> pending (debounce_advance cfg d (debounce_run cfg evs debounce_init)))"
proof -
  let ?s = "debounce_run cfg evs (debounce_init :: ('c, 'a) debounce_state)"
  have inv: "debounce_inv cfg ?s"
    by (rule inv_reachable)
  then have coh: "coherent cfg ?s"
    by (simp add: debounce_inv_def)
  have a: "pending ?s \<longleftrightarrow> (\<exists>tm\<in>set (queue ?s). callback tm = TimeoutCb)"
    using inv by (rule pending_iff_timer)
  have b: "\<not> pending (debounce_init :: ('c, 'a) debounce_state)"
    by (simp add: pending_def debounce_init_def)
  have c: "pending (debounced cfg c a ?s) \<longleftrightarrow> trailing cfg"
    using coh by (auto simp: pending_def coherent_def)
  have e: "\<not> pending (debounce_cancel ?s)" "\<not> pending (flush ?s)"
    by (simp_all add: pending_def)
  have f: "\<not> pending (debounce_advance cfg d ?s)"
    if "next_timer (now ?s + d) (queue ?s) \<noteq> None"
    using that by (auto simp: debounce_advance_eq [OF inv] pending_def)
  have g: "\<not> pending (debounce_advance cfg d ?s)"
    if "deliveries (debounce_advance cfg d ?s) \<noteq> deliveries ?s"
  proof (rule f)
    show "next_timer (now ?s + d) (queue ?s) \<noteq> None"
      using that by (auto simp: debounce_advance_eq [OF inv] split: option.splits)
  qed
  from a b c e f g show ?thesis
    by blast
qed

theorem pending_reflects_timer_witness:
  "pending (debounce_run \<lparr>wait = 100, leading = False, trailing = True, maxWait = None\<rparr>
      [Call None ''a''] (debounce_init :: (string, string) debounce_state)) \<and>
   deliveries (debounce_run \<lparr>wait = 100, leading = False, trailing = True, maxWait = None\<rparr>
      [Call None ''a'', Advance 100] (debounce_init :: (string, string) debounce_state)) =
     [(100, None, ''a'')] \<and>
   \<not> pending (debounce_run \<lparr>wait = 100, leading = False, trailing = True, maxWait = None\<rparr>
      [Call None ''a'', Advance 100] (debounce_init :: (string, string) debounce_state))"
  using pending_reflects_timer [of "\<lparr>wait = 100, leading = False, trailing = True, maxWait = None\<rparr>"
      "[Call None ''a''] :: (string, string) event list" None "''b''" 100]
  by (simp add: debounce_eval)

section \<open>The last-call marker after a flush\<close>

lemma marked_calls:
  "lastCallTime s \<noteq> None \<Longrightarrow>
   deliveries (debounce_run cfg (map (\<lambda>x. Call (fst x) (snd x)) cs) s) = deliveries s \<and>
   lastCallTime (debounce_run cfg (map (\<lambda>x. Call (fst x) (snd x)) cs) s) \<noteq> None"
  by (induction cs arbitrary: s) (simp_all add: leading_edge_def)

text \<open>
  Claim C10.  In every reachable state \<open>s\<close> of a debounced function, \<open>flush()\<close> clears
  both timers, the pending arguments and the pending context, and leaves
  \<open>lastCallTime\<close> as it was.  So, when \<open>lastCallTime\<close> was set, none of the calls
  \<open>cs\<close> made after the flush is delivered on the leading edge, and the marker stays
  set.  A call in a state with the marker set delivers nothing and keeps it set.
  \<open>cancel()\<close> and either timer callback clear the marker, and an advance of time in
  which no timer runs does not change it.
\<close>

theorem flush_keeps_lastCallTime:
  "timeoutId (flush (debounce_run cfg evs debounce_init)) = None \<and>
   maxTimeoutId (flush (debounce_run cfg evs debounce_init)) = None \<and>
   queue (flush (debounce_run cfg evs debounce_init)) = [] \<and>
   lastArgs (flush (debounce_run cfg evs debounce_init)) = None \<and>
   lastThis (flush (debounce_run cfg evs debounce_init)) = None \<and>
   lastCallTime (flush (debounce_run cfg evs debounce_init)) =
     lastCallTime (debounce_run cfg evs debounce_init) \<and>
   (lastCallTime (debounce_run cfg evs debounce_init) \<noteq> None \<longrightarrow>
      deliveries (debounce_run cfg (evs @ Flush # map (\<lambda>x. Call (fst x) (snd x)) cs) debounce_init) =
        deliveries (flush (debounce_run cfg evs debounce_init)) \<and>
      lastCallTime (debounce_run cfg (evs @ Flush # map (\<lambda>x. Call (fst x) (snd x)) cs) debounce_init)
        \<noteq> None) \<and>
   (lastCallTime (debounce_run cfg evs debounce_init) \<noteq> None \<longrightarrow>
      deliveries (debounced cfg c a (debounce_run cfg evs debounce_init)) =
        deliveries (debounce_run cfg evs debounce_init)) \<and>
   lastCallTime (debounced cfg c a (debounce_run cfg evs debounce_init)) \<noteq> None \<and>
   lastCallTime (debounce_cancel (debounce_run cfg evs debounce_init)) = None \<and>
   lastCallTime (timeout_callback cfg (debounce_run cfg evs debounce_init)) = None \<and>
   lastCallTime (maxTimeout_callback (debounce_run cfg evs debounce_init)) = None \<and>
   (next_timer (now (debounce_run cfg evs debounce_init) + d)
      (queue (debounce_run cfg evs debounce_init)) = None \<longrightarrow>
      lastCallTime (debounce_advance cfg d (debounce_run cfg evs debounce_init)) =
        lastCallTime (debounce_run cfg evs debounce_init))"
proof -
  let ?s = "debounce_run cfg evs debounce_init"
  let ?cs = "map (\<lambda>x. Call (fst x) (snd x)) cs"
  have inv: "debounce_inv cfg ?s"
    by (rule inv_reachable)
  then have coh: "coherent cfg ?s"
    by (simp add: debounce_inv_def)
  have q: "queue (flush ?s) = []"
    using inv by (rule flush_queue_empty)
  have this_None: "lastThis (flush ?s) = None"
    using coh by (simp add: coherent_def)
  have calls: "deliveries (debounce_run cfg (evs @ Flush # ?cs) debounce_init) = deliveries (flush ?s) \<and>
      lastCallTime (debounce_run cfg (evs @ Flush # ?cs) debounce_init) \<noteq> None"
    if "lastCallTime ?s \<noteq> None"
    using that marked_calls [of "flush ?s" cfg cs] by (simp add: debounce_run_append)
  have one: "deliveries (debounced cfg c a ?s) = deliveries ?s" if "lastCallTime ?s \<noteq> None"
    using that by (simp add: leading_edge_def)
  have adv: "lastCallTime (debounce_advance cfg d ?s) = lastCallTime ?s"
    if "next_timer (now ?s + d) (queue ?s) = None"
    using that by (simp add: debounce_advance_eq [OF inv])
  have rest: "timeoutId (flush ?s) = None" "maxTimeoutId (flush ?s) = None"
    "lastArgs (flush ?s) = None" "lastCallTime (flush ?s) = lastCallTime ?s"
    "lastCallTime (debounced cfg c a ?s) \<noteq> None"
    "lastCallTime (debounce_cancel ?s) = None"
    "lastCallTime (timeout_callback cfg ?s) = None"
    "lastCallTime (maxTimeout_callback ?s) = None"
    by simp_all
  from q this_None calls one adv rest show ?thesis
    by blast
qed

theorem flush_keeps_lastCallTime_witness:
  "deliveries (debounce_run \<lparr>wait = 100, leading = True, trailing = True, maxWait = None\<rparr>
      [Call None ''a'', Advance 10, Call None ''b'', Flush, Call None ''c'', Call None ''d'']
      (debounce_init :: (string, string) debounce_state)) = [(0, None, ''a''), (10, None, ''b'')] \<and>
   lastCallTime (debounce_run \<lparr>wait = 100, leading = True, trailing = True, maxWait = None\<rparr>
      [Call None ''a'', Advance 10, Call None ''b'', Flush]
      (debounce_init :: (string, string) debounce_state)) = Some 10"
  using flush_keeps_lastCallTime [of "\<lparr>wait = 100, leading = True, trailing = True, maxWait = None\<rparr>"
      "[Call None ''a'', Advance 10, Call None ''b''] :: (string, string) event list"
      "[(None, ''c''), (None, ''d'')]" None "''c''" 5]
  by (simp add: debounce_eval)

section \<open>Idempotent cancel and flush\<close>















section \<open>Throttle: one delivery per cooldown window\<close>


















section \<open>maxWait bounds the latency\<close>

lemma max_timer_kept:
  assumes "debounce_inv cfg s" "tm \<in> set (queue s)" "callback tm = MaxTimeoutCb"
  shows "tm \<in> set (without (timeoutId s) (queue s))" "maxTimeoutId s = Some (handle tm)"
proof -
  from assms show m: "maxTimeoutId s = Some (handle tm)"
    unfolding debounce_inv_def timers_owned_def by force
  with assms(1) have "timeoutId s \<noteq> Some (handle tm)"
    unfolding debounce_inv_def handles_live_def by force
  with assms(2) show "tm \<in> set (without (timeoutId s) (queue s))"
    by (simp add: mem_without)
qed

lemma max_timer_live:
  assumes "debounce_inv cfg s" "maxTimeoutId s = Some h"
  shows "\<exists>tm\<in>set (queue s). handle tm = h \<and> callback tm = MaxTimeoutCb"
proof -
  from assms obtain tm where tm: "tm \<in> set (queue s)" "handle tm = h"
    unfolding debounce_inv_def handles_live_def by blast
  from assms have "timeoutId s \<noteq> Some h"
    unfolding debounce_inv_def handles_live_def by force
  with assms(1) tm have "callback tm = MaxTimeoutCb"
    unfolding debounce_inv_def timers_owned_def by force
  with tm show ?thesis
    by blast
qed

lemma max_timers_unchanged:
  assumes "debounce_inv cfg s"
  shows "filter (\<lambda>tm. callback tm = MaxTimeoutCb) (without (timeoutId s) (queue s)) =
    filter (\<lambda>tm. callback tm = MaxTimeoutCb) (queue s)"
proof (cases "timeoutId s")
  case None
  then show ?thesis
    by (simp add: without_def)
next
  case (Some h)
  have "filter (\<lambda>tm. handle tm \<noteq> h \<and> callback tm = MaxTimeoutCb) (queue s) =
      filter (\<lambda>tm. callback tm = MaxTimeoutCb) (queue s)"
  proof (rule filter_cong [OF refl])
    fix tm
    assume "tm \<in> set (queue s)"
    with max_timer_kept [OF assms, of tm] Some
    show "(handle tm \<noteq> h \<and> callback tm = MaxTimeoutCb) = (callback tm = MaxTimeoutCb)"
      by (auto dest: without_subset)
  qed
  with Some show ?thesis
    by (simp add: without_def)
qed

lemma timer_delay_outside_le: "timer_delay False delay \<le> max 0 delay"
  by (simp add: timer_delay_cases maxTimeout_def)

text \<open>A max-wait timer is never due later than \<open>maxWait\<close> from now.\<close>

definition max_bounded :: "int \<Rightarrow> ('c, 'a) debounce_state \<Rightarrow> bool" where
  "max_bounded m s \<longleftrightarrow>
     (\<forall>tm\<in>set (queue s). callback tm = MaxTimeoutCb \<longrightarrow> due tm \<le> now s + max 0 m)"

lemma max_bounded_step:
  assumes "debounce_inv cfg s" "max_bounded m s" "maxWait cfg = Some m"
  shows "max_bounded m (debounce_step cfg ev s)"
proof (cases ev)
  case (Call c a)
  from assms(1) have "\<not> duringTick s"
    by (simp add: debounce_inv_def)
  with assms(2,3) timer_delay_outside_le [of m] have "max_bounded m (debounced cfg c a s)"
    unfolding max_bounded_def by (auto dest: without_subset split: if_splits)
  with Call show ?thesis by simp
next
  case Cancel
  with assms(1) show ?thesis
    by (simp add: max_bounded_def debounce_inv_def owned_cleared)
next
  case Flush
  with assms(1) show ?thesis
    by (simp add: max_bounded_def debounce_inv_def owned_cleared)
next
  case (Advance d)
  with assms(1,2) show ?thesis
    by (auto simp: max_bounded_def debounce_advance_eq split: option.splits)
qed

lemma max_bounded_run:
  assumes "debounce_inv cfg s" "max_bounded m s" "maxWait cfg = Some m"
  shows "max_bounded m (debounce_run cfg evs s)"
  using assms
  by (induction evs arbitrary: s) (simp_all add: max_bounded_step inv_step)

lemma max_bounded_reachable:
  "maxWait cfg = Some m \<Longrightarrow> max_bounded m (debounce_run cfg evs debounce_init)"
  by (rule max_bounded_run) (simp_all add: inv_init, simp add: max_bounded_def debounce_init_def)

text \<open>
  After a call at time \<open>t0\<close>, with \<open>n\<close> deliveries made before it: either a delivery
  has been made since, no later than \<open>t0 + m\<close>, or a call is pending and a max-wait
  timer is due by \<open>t0 + m\<close>.
\<close>

definition served :: "nat \<Rightarrow> int \<Rightarrow> int \<Rightarrow> ('c, 'a) debounce_state \<Rightarrow> bool" where
  "served n t0 m s \<longleftrightarrow> (\<exists>x\<in>set (drop n (deliveries s)). t0 \<le> fst x \<and> fst x \<le> t0 + m)"

definition waiting :: "int \<Rightarrow> int \<Rightarrow> ('c, 'a) debounce_state \<Rightarrow> bool" where
  "waiting t0 m s \<longleftrightarrow>
     lastArgs s \<noteq> None \<and>
     (\<exists>tm\<in>set (queue s). callback tm = MaxTimeoutCb \<and> due tm \<le> t0 + m)"

definition on_time :: "nat \<Rightarrow> int \<Rightarrow> int \<Rightarrow> ('c, 'a) debounce_state \<Rightarrow> bool" where
  "on_time n t0 m s \<longleftrightarrow>
     t0 \<le> now s \<and> n \<le> length (deliveries s) \<and> (served n t0 m s \<or> waiting t0 m s)"

lemma served_mono:
  assumes "served n t0 m s" "n \<le> length (deliveries s)" "deliveries s' = deliveries s @ X"
  shows "served n t0 m s'"
  using assms by (auto simp: served_def)

lemma on_time_first_call:
  assumes inv: "debounce_inv cfg s" and mb: "max_bounded m s"
    and m: "maxWait cfg = Some m" "0 \<le> m"
  shows "on_time (length (deliveries s)) (now s) m (debounced cfg c a s)"
proof (cases "leading_edge cfg s")
  case True
  with m(2) show ?thesis
    by (simp add: on_time_def served_def)
next
  case False
  have "\<exists>tm\<in>set (queue (debounced cfg c a s)). callback tm = MaxTimeoutCb \<and> due tm \<le> now s + m"
  proof (cases "maxTimeoutId s")
    case None
    from inv have "\<not> duringTick s"
      by (simp add: debounce_inv_def)
    with None m timer_delay_upper [of m] show ?thesis
      by (simp add: max_due_now_def)
  next
    case (Some h)
    from max_timer_live [OF inv this] obtain tm where
      tm: "tm \<in> set (queue s)" "callback tm = MaxTimeoutCb"
      by blast
    with mb m(2) have "due tm \<le> now s + m"
      by (auto simp: max_bounded_def)
    moreover from max_timer_kept(1) [OF inv tm]
    have "tm \<in> set (queue (debounced cfg c a s))"
      by simp
    ultimately show ?thesis
      using tm(2) by blast
  qed
  with False show ?thesis
    by (simp add: on_time_def waiting_def)
qed

lemma on_time_call:
  assumes inv: "debounce_inv cfg s" and ot: "on_time n t0 m s"
  shows "on_time n t0 m (debounced cfg c a s)"
proof -
  from ot have base: "t0 \<le> now s" "n \<le> length (deliveries s)"
    by (simp_all add: on_time_def)
  from ot consider (served) "served n t0 m s" | (waiting) "waiting t0 m s"
    by (auto simp: on_time_def)
  then show ?thesis
  proof cases
    case served
    from this base(2) have "served n t0 m (debounced cfg c a s)"
      by (rule served_mono) simp
    with base show ?thesis
      by (simp add: on_time_def)
  next
    case waiting
    then obtain tm where tm: "tm \<in> set (queue s)" "callback tm = MaxTimeoutCb"
      "due tm \<le> t0 + m" and args: "lastArgs s \<noteq> None"
      by (auto simp: waiting_def)
    from inv args have "\<not> leading_edge cfg s"
      by (auto simp: debounce_inv_def coherent_def leading_edge_def)
    moreover from max_timer_kept(1) [OF inv tm(1,2)]
    have "tm \<in> set (queue (debounced cfg c a s))"
      by simp
    ultimately have "waiting t0 m (debounced cfg c a s)"
      using tm(2,3) by (auto simp: waiting_def)
    with base show ?thesis
      by (simp add: on_time_def)
  qed
qed

lemma on_time_advance:
  assumes inv: "debounce_inv cfg s" and ot: "on_time n t0 m s"
  shows "on_time n t0 m (debounce_advance cfg d s)"
    and "t0 + m \<le> now s + d \<Longrightarrow> served n t0 m (debounce_advance cfg d s)"
proof -
  from ot have base: "t0 \<le> now s" "n \<le> length (deliveries s)"
    by (simp_all add: on_time_def)
  let ?s' = "debounce_advance cfg d s"
  have keep: "served n t0 m ?s'" if "served n t0 m s"
  proof (cases "next_timer (now s + d) (queue s)")
    case None
    with that show ?thesis
      by (simp add: debounce_advance_eq [OF inv] served_def)
  next
    case (Some tm)
    from that base(2) show ?thesis
      by (rule served_mono) (simp add: debounce_advance_eq [OF inv] Some)
  qed
  have fire: "served n t0 m ?s'"
    if w: "waiting t0 m s" and tm: "next_timer (now s + d) (queue s) = Some tm" for tm
  proof -
    from w obtain x a where x: "x \<in> set (queue s)" "due x \<le> t0 + m" and a: "lastArgs s = Some a"
      by (auto simp: waiting_def)
    from tm x(1) have "due tm \<le> due x"
      by (rule next_timer_least)
    with x(2) have hi: "due tm \<le> t0 + m"
      by simp
    from tm have "tm \<in> set (queue s)"
      by (rule next_timer_mem)
    with inv have "now s \<le> due tm"
      unfolding debounce_inv_def timers_owned_def by blast
    with base have lo: "t0 \<le> due tm"
      by simp
    from tm a base lo hi show ?thesis
      by (simp add: debounce_advance_eq [OF inv] served_def)
  qed
  have len: "n \<le> length (deliveries ?s')"
    using base by (simp add: debounce_advance_eq [OF inv] split: option.splits)
  have clock: "t0 \<le> now ?s'"
  proof (cases "next_timer (now s + d) (queue s)")
    case None
    with base show ?thesis
      by (simp add: debounce_advance_eq [OF inv])
  next
    case (Some tm)
    then have "tm \<in> set (queue s)" "due tm \<le> now s + d"
      by (auto dest: next_timer_mem next_timer_due)
    with inv have "now s \<le> now s + d"
      unfolding debounce_inv_def timers_owned_def by force
    with Some base show ?thesis
      by (simp add: debounce_advance_eq [OF inv])
  qed
  from ot consider (served) "served n t0 m s" | (waiting) "waiting t0 m s"
    by (auto simp: on_time_def)
  then show "on_time n t0 m ?s'"
  proof cases
    case served
    with keep len clock show ?thesis
      by (simp add: on_time_def)
  next
    case waiting
    show ?thesis
    proof (cases "next_timer (now s + d) (queue s)")
      case None
      with waiting have "waiting t0 m ?s'"
        by (simp add: debounce_advance_eq [OF inv] waiting_def)
      with len clock show ?thesis
        by (simp add: on_time_def)
    next
      case (Some tm)
      with waiting have "served n t0 m ?s'"
        by (rule fire)
      with len clock show ?thesis
        by (simp add: on_time_def)
    qed
  qed
  assume late: "t0 + m \<le> now s + d"
  from ot consider (served) "served n t0 m s" | (waiting) "waiting t0 m s"
    by (auto simp: on_time_def)
  then show "served n t0 m ?s'"
  proof cases
    case served
    then show ?thesis by (rule keep)
  next
    case waiting
    then obtain x where "x \<in> set (queue s)" "due x \<le> t0 + m"
      by (auto simp: waiting_def)
    with late have "\<not> (\<forall>x\<in>set (queue s). now s + d < due x)"
      by force
    then obtain tm where "next_timer (now s + d) (queue s) = Some tm"
      by (auto simp: next_timer_None [symmetric])
    with waiting show ?thesis
      by (rule fire)
  qed
qed

lemma on_time_run:
  assumes "debounce_inv cfg s" "on_time n t0 m s" "\<forall>ev\<in>set evs. ev \<noteq> Cancel \<and> ev \<noteq> Flush"
  shows "on_time n t0 m (debounce_run cfg evs s)"
  using assms
proof (induction evs arbitrary: s)
  case Nil
  then show ?case by simp
next
  case (Cons ev evs)
  from Cons.prems have "on_time n t0 m (debounce_step cfg ev s)"
    by (cases ev) (simp_all add: on_time_call on_time_advance(1))
  with Cons show ?case
    by (simp add: inv_step)
qed

lemma now_advance:
  assumes "debounce_inv cfg s" "0 \<le> d"
  shows "now (debounce_advance cfg d s) = now s + d"
  using assms by (simp add: debounce_advance_eq split: option.splits)

text \<open>
  Claim C4.  A debounced function has \<open>maxWait = m \<ge> 0\<close>.  After any history \<open>evs\<close> it
  is called, and from then on it is called and time advances in any way, with no
  \<open>cancel()\<close> and no \<open>flush()\<close> (\<open>evs'\<close>), until \<open>m\<close> ms have passed since that call.
  Then a delivery has been made since the call, no later than \<open>m\<close> ms after it, however
  often the later calls have reset the primary timer.  A call schedules the max-wait
  timer when none is scheduled, due after the platform's delay for \<open>m\<close>, which is
  \<open>m\<close> ms up to \<open>2^31 - 1\<close> and 1 ms above, and otherwise leaves the one scheduled
  as it is; when the max-wait timer runs, it clears the primary timer and delivers the
  pending arguments and context.
\<close>

theorem maxWait_bounds_latency:
  assumes "maxWait cfg = Some m" and "0 \<le> m"
    and "\<forall>ev\<in>set evs'. ev \<noteq> Cancel \<and> ev \<noteq> Flush"
    and "0 \<le> d"
    and "now (debounce_run cfg evs debounce_init) + m
           \<le> now (debounce_run cfg (evs @ Call c a # evs' @ [Advance d]) debounce_init)"
  shows
    "(\<exists>x\<in>set (drop (length (deliveries (debounce_run cfg evs debounce_init)))
               (deliveries (debounce_run cfg (evs @ Call c a # evs' @ [Advance d]) debounce_init))).
        now (debounce_run cfg evs debounce_init) \<le> fst x \<and>
        fst x \<le> now (debounce_run cfg evs debounce_init) + m) \<and>
     (maxTimeoutId (debounce_run cfg evs debounce_init) = None \<longrightarrow>
        (\<exists>h. maxTimeoutId (debounced cfg c a (debounce_run cfg evs debounce_init)) = Some h \<and>
             Timer h (now (debounce_run cfg evs debounce_init) + timer_delay False m) MaxTimeoutCb
               \<in> set (queue (debounced cfg c a (debounce_run cfg evs debounce_init))))) \<and>
     timer_delay False m = (if m \<le> 2147483647 then m else 1) \<and>
     (maxTimeoutId (debounce_run cfg evs debounce_init) \<noteq> None \<longrightarrow>
        maxTimeoutId (debounced cfg c a (debounce_run cfg evs debounce_init)) =
          maxTimeoutId (debounce_run cfg evs debounce_init) \<and>
        filter (\<lambda>tm. callback tm = MaxTimeoutCb)
          (queue (debounced cfg c a (debounce_run cfg evs debounce_init))) =
        filter (\<lambda>tm. callback tm = MaxTimeoutCb) (queue (debounce_run cfg evs debounce_init))) \<and>
     (\<forall>tm\<in>set (queue (debounce_run cfg evs debounce_init)). callback tm = MaxTimeoutCb \<longrightarrow>
        queue (debounce_fire cfg tm (debounce_run cfg evs debounce_init)) = [] \<and>
        \<not> pending (debounce_fire cfg tm (debounce_run cfg evs debounce_init)) \<and>
        deliveries (debounce_fire cfg tm (debounce_run cfg evs debounce_init)) =
          deliveries (debounce_run cfg evs debounce_init) @
            (case lastArgs (debounce_run cfg evs debounce_init) of
               Some b \<Rightarrow> [(due tm, lastThis (debounce_run cfg evs debounce_init), b)]
             | None \<Rightarrow> []))"
proof -
  let ?s = "debounce_run cfg evs debounce_init"
  let ?c = "debounced cfg c a ?s"
  let ?b = "debounce_run cfg evs' ?c"
  let ?f = "debounce_run cfg (evs @ Call c a # evs' @ [Advance d]) debounce_init"
  have inv: "debounce_inv cfg ?s"
    by (rule inv_reachable)
  have mb: "max_bounded m ?s"
    using assms(1) by (rule max_bounded_reachable)
  have f: "?f = debounce_advance cfg d ?b"
    by (simp add: debounce_run_append)
  have "on_time (length (deliveries ?s)) (now ?s) m ?c"
    using inv mb assms(1,2) by (rule on_time_first_call)
  with inv_debounced [OF inv] have ot: "on_time (length (deliveries ?s)) (now ?s) m ?b"
    using assms(3) by (rule on_time_run)
  have invb: "debounce_inv cfg ?b"
    by (intro inv_run inv_debounced inv)
  from invb assms(4) have "now ?f = now ?b + d"
    unfolding f by (rule now_advance)
  with assms(5) have "now ?s + m \<le> now ?b + d"
    by simp
  with on_time_advance(2) [OF invb ot] have "served (length (deliveries ?s)) (now ?s) m ?f"
    unfolding f by simp
  then have latency: "\<exists>x\<in>set (drop (length (deliveries ?s)) (deliveries ?f)).
      now ?s \<le> fst x \<and> fst x \<le> now ?s + m"
    by (simp add: served_def)
  from inv have flag: "\<not> duringTick ?s"
    by (simp add: debounce_inv_def)
  have sched: "\<exists>h. maxTimeoutId ?c = Some h \<and>
      Timer h (now ?s + timer_delay False m) MaxTimeoutCb \<in> set (queue ?c)"
    if "maxTimeoutId ?s = None"
    using that assms(1,2) flag by (simp add: max_due_now_def)
  have delay: "timer_delay False m = (if m \<le> 2147483647 then m else 1)"
    using assms(2) by (simp add: timer_delay_cases maxTimeout_def)
  have kept: "maxTimeoutId ?c = maxTimeoutId ?s \<and>
      filter (\<lambda>tm. callback tm = MaxTimeoutCb) (queue ?c) =
      filter (\<lambda>tm. callback tm = MaxTimeoutCb) (queue ?s)"
    if "maxTimeoutId ?s \<noteq> None"
    using that max_timers_unchanged [OF inv] by (simp add: max_due_now_def)
  have fires: "queue (debounce_fire cfg tm ?s) = [] \<and> \<not> pending (debounce_fire cfg tm ?s) \<and>
      deliveries (debounce_fire cfg tm ?s) = deliveries ?s @
        (case lastArgs ?s of Some b \<Rightarrow> [(due tm, lastThis ?s, b)] | None \<Rightarrow> [])"
    if "tm \<in> set (queue ?s)" for tm
  proof -
    from inv that have "debounce_fire cfg tm ?s = fired (due tm) ?s"
      by (simp add: debounce_inv_def debounce_fire_eq)
    then show ?thesis
      by (simp add: pending_def)
  qed
  from latency sched delay kept fires show ?thesis
    by blast
qed

theorem maxWait_bounds_latency_witness:
  "deliveries (debounce_run \<lparr>wait = 100, leading = False, trailing = True, maxWait = Some 150\<rparr>
      [Call None ''a'', Advance 50, Call None ''b'', Advance 50, Call None ''c'', Advance 50]
      (debounce_init :: (string, string) debounce_state)) = [(150, None, ''c'')] \<and>
   queue (debounce_run \<lparr>wait = 100, leading = False, trailing = True, maxWait = Some 150\<rparr>
      [Call None ''a'', Advance 50, Call None ''b'']
      (debounce_init :: (string, string) debounce_state)) =
     [Timer 2 150 MaxTimeoutCb, Timer 3 150 TimeoutCb] \<and>
   deliveries (debounce_fire \<lparr>wait = 100, leading = False, trailing = True, maxWait = Some 150\<rparr>
      (Timer 2 150 MaxTimeoutCb)
      (debounce_run \<lparr>wait = 100, leading = False, trailing = True, maxWait = Some 150\<rparr>
        [Call None ''a'', Advance 50, Call None ''b'']
        (debounce_init :: (string, string) debounce_state))) = [(150, None, ''b'')] \<and>
   deliveries (debounce_run
      \<lparr>wait = 100, leading = False, trailing = True, maxWait = Some 2147483648\<rparr>
      [Call None ''a'', Advance 2147483648]
      (debounce_init :: (string, string) debounce_state)) = [(1, None, ''a'')]"
  using maxWait_bounds_latency [of
      "\<lparr>wait = 100, leading = False, trailing = True, maxWait = Some 150\<rparr>" 150
      "[Advance 50, Call None ''b'', Advance 50, Call None ''c''] :: (string, string) event list"
      50 "[]" None "''a''"]
    maxWait_bounds_latency [of
      "\<lparr>wait = 100, leading = False, trailing = True, maxWait = Some 150\<rparr>" 150
      "[Advance 50] :: (string, string) event list"
      100 "[Call None ''a'', Advance 50, Call None ''b'']" None "''c''"]
    maxWait_bounds_latency [of
      "\<lparr>wait = 100, leading = False, trailing = True, maxWait = Some 2147483648\<rparr>" 2147483648
      "[] :: (string, string) event list"
      2147483648 "[]" None "''a''"]
  by (simp add: debounce_eval)

section \<open>The leading edge\<close>

text \<open>
  What the code does on the leading edge: a call is delivered inside the call exactly
  when \<open>leading\<close> is set and \<open>lastCallTime\<close> is \<open>undefined\<close>.  The time stored in
  \<open>lastCallTime\<close> is never compared with the clock; only a timer callback or
  \<open>cancel()\<close> makes it \<open>undefined\<close> again.
\<close>

lemma leading_delivery_iff:
  "deliveries (debounced cfg c a s) =
     deliveries s @ (if leading cfg \<and> lastCallTime s = None then [(now s, c, a)] else [])"
  by (simp add: leading_edge_def conj_commute)

text \<open>
  With \<open>leading\<close> set, \<open>trailing\<close> unset and no \<open>maxWait\<close>, no timer is ever
  scheduled, so over calls and advances of time only the first call is ever delivered.
\<close>

definition spent :: "('c, 'a) debounce_state \<Rightarrow> bool" where
  "spent s \<longleftrightarrow>
     queue s = [] \<and>
     (if lastCallTime s = None then deliveries s = [] else length (deliveries s) = 1)"

lemma spent_step:
  assumes "spent s" "leading cfg" "\<not> trailing cfg" "maxWait cfg = None"
    "ev \<noteq> Cancel" "ev \<noteq> Flush"
  shows "spent (debounce_step cfg ev s)"
proof (cases ev)
  case (Call c a)
  with assms show ?thesis
    by (cases "timeoutId s")
      (auto simp add: spent_def leading_edge_def max_due_now_def without_def)
next
  case (Advance d)
  with assms(1) show ?thesis
    by (simp add: spent_def debounce_advance_idle)
qed (use assms in simp_all)

lemma leading_only_delivers_once:
  assumes "leading cfg" "\<not> trailing cfg" "maxWait cfg = None"
    "\<forall>ev\<in>set evs. ev \<noteq> Cancel \<and> ev \<noteq> Flush"
  shows "length (deliveries (debounce_run cfg evs debounce_init)) \<le> 1"
proof -
  have "spent s \<Longrightarrow> \<forall>ev\<in>set evs. ev \<noteq> Cancel \<and> ev \<noteq> Flush \<Longrightarrow> spent (debounce_run cfg evs s)"
    for s :: "('a, 'b) debounce_state"
    using assms(1-3) by (induction evs arbitrary: s) (simp_all add: spent_step)
  moreover have "spent (debounce_init :: ('a, 'b) debounce_state)"
    by (simp add: spent_def debounce_init_def)
  ultimately have "spent (debounce_run cfg evs debounce_init)"
    using assms(4) by blast
  then show ?thesis
    by (auto simp: spent_def split: if_splits)
qed

text \<open>
  Claim C2 at its failing input.  \<open>debounce(fn, 100, {leading: true, trailing: false})\<close>
  is called with \<open>a\<close>, 200 ms pass, and it is called with \<open>b\<close>.  Before the second
  call no call is pending, no timer is scheduled and more than \<open>wait\<close> has passed
  since the last call, so the second call starts a new burst; it is not delivered,
  neither at once nor later.
\<close>

theorem leading_second_burst_not_delivered:
  "lastArgs (debounce_run \<lparr>wait = 100, leading = True, trailing = False, maxWait = None\<rparr>
      [Call None ''a'', Advance 200] (debounce_init :: (string, string) debounce_state)) = None \<and>
   queue (debounce_run \<lparr>wait = 100, leading = True, trailing = False, maxWait = None\<rparr>
      [Call None ''a'', Advance 200] (debounce_init :: (string, string) debounce_state)) = [] \<and>
   now (debounce_run \<lparr>wait = 100, leading = True, trailing = False, maxWait = None\<rparr>
      [Call None ''a'', Advance 200] (debounce_init :: (string, string) debounce_state)) = 200 \<and>
   deliveries (debounce_run \<lparr>wait = 100, leading = True, trailing = False, maxWait = None\<rparr>
      [Call None ''a'', Advance 200, Call None ''b'']
      (debounce_init :: (string, string) debounce_state)) = [(0, None, ''a'')] \<and>
   deliveries (debounce_run \<lparr>wait = 100, leading = True, trailing = False, maxWait = None\<rparr>
      [Call None ''a'', Advance 200, Call None ''b'', Advance 1000]
      (debounce_init :: (string, string) debounce_state)) = [(0, None, ''a'')]"
  by (simp add: debounce_eval)

section \<open>Construction\<close>

text \<open>
  The claim C7 as stated fails: neither constructor looks at \<open>wait\<close>, and a negative
  one gives a controller like any other.
\<close>

theorem negative_wait_counterexample:
  "\<not> isl (debounce (- 1) \<lparr>opt_leading = None, opt_trailing = None, opt_maxWait = None\<rparr>
      :: error + debounce_config \<times> (string, string) debounce_state) \<and>
   \<not> isl (throttle (- 1) :: error + int \<times> (string, string) throttle_state)"
  by (simp add: debounce_def throttle_def)

text \<open>
  Claim C7, amended.  Constructing a debounced or a throttled function never fails,
  whatever \<open>wait\<close> is, negative or not: the constructor validates nothing and clamps
  nothing.  It returns the controller in its initial state, with \<open>wait\<close> kept as given
  and, for \<open>debounce\<close>, the options with their defaults (\<open>leading\<close> false, \<open>trailing\<close>
  true, \<open>maxWait\<close> as given).
\<close>

theorem construction_accepts_any_wait:
  "\<not> isl (debounce w options :: error + debounce_config \<times> ('c, 'a) debounce_state) \<and>
   \<not> isl (throttle w :: error + int \<times> ('c, 'a) throttle_state) \<and>
   (\<forall>cfg s0. debounce w options = Inr (cfg, s0 :: ('c, 'a) debounce_state) \<longrightarrow>
      wait cfg = w \<and>
      (leading cfg \<longleftrightarrow> opt_leading options = Some True) \<and>
      (trailing cfg \<longleftrightarrow> opt_trailing options \<noteq> Some False) \<and>
      maxWait cfg = opt_maxWait options \<and>
      s0 = debounce_init) \<and>
   (\<forall>w' t0. throttle w = Inr (w', t0 :: ('c, 'a) throttle_state) \<longrightarrow>
      w' = w \<and> t0 = throttle_init)"
  by (auto simp: debounce_def throttle_def split: option.splits)

theorem construction_accepts_any_wait_witness:
  "debounce (- 5) \<lparr>opt_leading = None, opt_trailing = Some True, opt_maxWait = Some 20\<rparr> =
     Inr (\<lparr>wait = - 5, leading = False, trailing = True, maxWait = Some 20\<rparr>,
          (debounce_init :: (string, string) debounce_state)) \<and>
   throttle (- 5) = Inr (- 5, (throttle_init :: (string, string) throttle_state))"
  using construction_accepts_any_wait [of "- 5"
      "\<lparr>opt_leading = None, opt_trailing = Some True, opt_maxWait = Some 20\<rparr>",
      where ?'c = string and ?'a = string]
  by (simp add: debounce_def throttle_def)

end
